theory Spec2Isabelle
  imports
    Main
    "HOL-Library.AList"
    "HOL-Library.Char_ord"
    "HOL-Library.List_Lexorder"
    "HOL-Library.Product_Lexorder"
    "HOL-Library.Sublist"
    "HOL-Library.Multiset"
begin

section \<open>Data model\<close>

text \<open>
  A box is named by a two-character string such as \<open>''A1''\<close>. A board is the Python
  dictionary \<open>values\<close>: box name to candidate string. Python dictionaries iterate in
  insertion order, and \<open>eliminate\<close> iterates the dictionary while it rewrites it, so the
  board is an association list: \<open>map fst\<close> is \<open>values.keys()\<close> in iteration order,
  \<open>map snd\<close> is \<open>values.values()\<close>, and \<open>AList.update\<close> is \<open>values[box] = v\<close>
  (the entry is rewritten in place; a new key would be appended).
\<close>

type_synonym box = string
type_synonym board = "(box \<times> string) list"

text \<open>
  \<open>values[box]\<close>. Python raises KeyError for a missing key; the model returns the empty
  string there. Every board of the program carries all 81 box names (predicate
  \<open>board_keys\<close> below), and on such boards no lookup of a box misses
  (lemma \<open>board_keys_lookup\<close>).
\<close>

definition lookup :: "board \<Rightarrow> box \<Rightarrow> string" where
  "lookup values box = (case map_of values box of Some v \<Rightarrow> v | None \<Rightarrow> [])"

text \<open>
  \<open>s.replace(old, '')\<close> where \<open>old\<close> is a one-character string, which is the only way
  the program calls it: every occurrence of that character is dropped.
\<close>

definition replace :: "string \<Rightarrow> string \<Rightarrow> string" where
  "replace s old = filter (\<lambda>c. [c] \<noteq> old) s"

subsection \<open>The helper module\<close>

text \<open>
  Modelled from the spec: the constants \<open>rows\<close>, \<open>cols\<close>, \<open>boxes\<close> and the function
  \<open>cross\<close> come from the module \<open>utils\<close>, which the program imports and which is not
  part of the source at hand. The spec fixes a 9 x 9 coordinate space in row-major order;
  the source spells the row letters and column digits out in \<open>square_units\<close> and slices
  \<open>boxes\<close> as an 81-element row-major list in \<open>diagonal_units\<close>.
\<close>

definition rows :: string where
  "rows = ''ABCDEFGHI''"

definition cols :: string where
  "cols = ''123456789''"

definition cross :: "string \<Rightarrow> string \<Rightarrow> box list" where
  "cross A B = concat (map (\<lambda>a. map (\<lambda>b. [a, b]) B) A)"

definition boxes :: "box list" where
  "boxes = cross rows cols"

text \<open>
  Modelled from the spec: \<open>assign_value\<close> also comes from \<open>utils\<close>. It stores the new
  candidate string in the board unless the box already holds it. The history of
  assignments it keeps for the visualiser is write-only for the solver and is left out.
\<close>

definition assign_value :: "board \<Rightarrow> box \<Rightarrow> string \<Rightarrow> board" where
  "assign_value values box value =
     (if lookup values box = value then values else AList.update box value values)"

text \<open>
  Modelled from the spec: \<open>grid2values\<close> (from \<open>utils\<close>) turns the 81-character grid,
  row-major, into a board: \<open>'.'\<close> becomes all nine candidates, a digit becomes itself.
\<close>

definition grid2values :: "string \<Rightarrow> board" where
  "grid2values grid =
     map (\<lambda>(val, key). (key, if val = CHR ''.'' then ''123456789'' else [val])) (zip grid boxes)"

section \<open>Unit topology\<close>

text \<open>The extended slice \<open>xs[start:stop:step]\<close> for non-negative bounds and a positive step.\<close>

definition slice_step :: "'a list \<Rightarrow> nat \<Rightarrow> nat \<Rightarrow> nat \<Rightarrow> 'a list" where
  "slice_step xs start stop step =
     map (\<lambda>i. xs ! i)
       (filter (\<lambda>i. start \<le> i \<and> (i - start) mod step = 0) [0..<min stop (length xs)])"

definition row_units :: "box list list" where
  "row_units = map (\<lambda>r. cross [r] cols) rows"

definition column_units :: "box list list" where
  "column_units = map (\<lambda>c. cross rows [c]) cols"

definition square_units :: "box list list" where
  "square_units =
     concat (map (\<lambda>rs. map (\<lambda>cs. cross rs cs) [''123'', ''456'', ''789''])
               [''ABC'', ''DEF'', ''GHI''])"

definition diagonal_units :: "box list list" where
  "diagonal_units = [slice_step boxes 0 (length boxes) 10, slice_step boxes 8 73 8]"

definition unitlist :: "box list list" where
  "unitlist = row_units @ column_units @ square_units @ diagonal_units"

definition units :: "box \<Rightarrow> box list list" where
  "units s = filter (\<lambda>u. s \<in> set u) unitlist"

text \<open>
  \<open>peers[s]\<close> is a Python set; the model lists it without repetition. No result below
  depends on the order of that list.
\<close>

definition peers :: "box \<Rightarrow> box list" where
  "peers s = removeAll s (remdups (concat (units s)))"

section \<open>Propagation strategies\<close>

subsection \<open>Elimination\<close>

text \<open>The body of the outer loop of \<open>eliminate\<close> for one box.\<close>

definition eliminate_box :: "board \<Rightarrow> box \<Rightarrow> board" where
  "eliminate_box values box =
     (if length (lookup values box) = 1
      then (let box_peers = peers box;
                box_value = lookup values box
            in fold (\<lambda>peer vs. assign_value vs peer (replace (lookup vs peer) box_value))
                 box_peers values)
      else values)"

definition eliminate :: "board \<Rightarrow> board" where
  "eliminate values = fold (\<lambda>box vs. eliminate_box vs box) (map fst values) values"

subsection \<open>Only choice\<close>

text \<open>
  The body of the inner loop of \<open>only_choice\<close>: \<open>value\<close> is one character of
  \<open>'123456789'\<close>, and \<open>value in values[box]\<close> is the substring test.
\<close>

definition only_choice_value :: "box list \<Rightarrow> board \<Rightarrow> char \<Rightarrow> board" where
  "only_choice_value unit values value =
     (let boxes_with_value = filter (\<lambda>box. sublist [value] (lookup values box)) unit
      in if length boxes_with_value = 1
         then assign_value values (boxes_with_value ! 0) [value]
         else values)"

definition only_choice :: "board \<Rightarrow> board" where
  "only_choice values =
     fold (\<lambda>unit vs. fold (\<lambda>value vs'. only_choice_value unit vs' value) ''123456789'' vs)
       unitlist values"

subsection \<open>Naked twins\<close>

definition doubles :: "board \<Rightarrow> box list" where
  "doubles values = filter (\<lambda>box. length (lookup values box) = 2) (map fst values)"

text \<open>
  \<open>twins.add(frozenset((box, twin)))\<close>: the set of unordered pairs is a list of pairs in
  which a pair is not entered again in either orientation.
\<close>

definition add_twin :: "box \<times> box \<Rightarrow> (box \<times> box) list \<Rightarrow> (box \<times> box) list" where
  "add_twin p tw = (if p \<in> set tw \<or> (snd p, fst p) \<in> set tw then tw else tw @ [p])"

definition twins :: "board \<Rightarrow> (box \<times> box) list" where
  "twins values =
     fold (\<lambda>box tw.
            fold (\<lambda>twin tw'. if lookup values box = lookup values twin
                              then add_twin (box, twin) tw' else tw')
              (peers box) tw)
       (doubles values) []"

text \<open>The removals one twin pair contributes to \<open>values_to_replace\<close>.\<close>

definition pair_removals :: "board \<Rightarrow> box \<times> box \<Rightarrow> (box \<times> string) list" where
  "pair_removals values p =
     (let twin1 = fst p; twin2 = snd p;
          common_peers = filter (\<lambda>b. b \<in> set (peers twin2)) (peers twin1)
      in concat (map (\<lambda>box.
           (let first_value = [lookup values twin1 ! 0];
                second_value = [lookup values twin1 ! 1]
            in (if sublist first_value (lookup values box) then [(box, first_value)] else []) @
               (if sublist second_value (lookup values box) then [(box, second_value)] else [])))
           common_peers))"

definition values_to_replace :: "board \<Rightarrow> (box \<times> string) list" where
  "values_to_replace values = concat (map (pair_removals values) (twins values))"

text \<open>The last loop of \<open>naked_twins\<close>, which applies the recorded removals.\<close>

definition apply_removals :: "(box \<times> string) list \<Rightarrow> board \<Rightarrow> board" where
  "apply_removals rs values =
     fold (\<lambda>r vs. assign_value vs (fst r) (replace (lookup vs (fst r)) (snd r))) rs values"

definition naked_twins :: "board \<Rightarrow> board" where
  "naked_twins values = apply_removals (values_to_replace values) values"

section \<open>Candidate strings only shrink\<close>

text \<open>
  \<open>shrinks new old\<close>: the two boards have the same keys in the same order, and every
  candidate string of \<open>new\<close> is an order-preserving subsequence of the string the same
  entry holds in \<open>old\<close>. \<open>total_len\<close> is the number of candidates left on a board; it is
  the measure under which the reducer and the search terminate.
\<close>

definition shrinks :: "board \<Rightarrow> board \<Rightarrow> bool" where
  "shrinks new old = list_all2 (\<lambda>a b. fst a = fst b \<and> subseq (snd a) (snd b)) new old"

definition total_len :: "board \<Rightarrow> nat" where
  "total_len values = sum_list (map (\<lambda>e. length (snd e)) values)"

lemma shrinks_refl: "shrinks b b"
  by (simp add: shrinks_def list_all2_refl)

lemma shrinks_trans: "shrinks a b \<Longrightarrow> shrinks b c \<Longrightarrow> shrinks a c"
proof -
  assume ab: "shrinks a b" and bc: "shrinks b c"
  show ?thesis
    unfolding shrinks_def
    by (rule list_all2_trans[OF _ ab[unfolded shrinks_def] bc[unfolded shrinks_def]])
       (auto intro: subseq_order.order_trans)
qed

lemma shrinks_antisym: "shrinks a b \<Longrightarrow> shrinks b a \<Longrightarrow> a = b"
  unfolding shrinks_def
proof (induction a b rule: list_all2_induct)
  case Nil
  then show ?case by simp
next
  case (Cons x xs y ys)
  then show ?case by (auto simp: prod_eq_iff intro: subseq_order.antisym)
qed

lemma shrinks_keys: "shrinks a b \<Longrightarrow> map fst a = map fst b"
  unfolding shrinks_def by (induction a b rule: list_all2_induct) auto

lemma shrinks_lookup: "shrinks a b \<Longrightarrow> subseq (lookup a box) (lookup b box)"
  unfolding shrinks_def lookup_def by (induction a b rule: list_all2_induct) auto

lemma shrinks_total_len: "shrinks a b \<Longrightarrow> total_len a \<le> total_len b"
  unfolding shrinks_def total_len_def
  by (induction a b rule: list_all2_induct) (auto dest: list_emb_length intro: add_mono)

lemma shrinks_total_len_less: "shrinks a b \<Longrightarrow> a \<noteq> b \<Longrightarrow> total_len a < total_len b"
  unfolding shrinks_def total_len_def
proof (induction a b rule: list_all2_induct)
  case Nil
  then show ?case by simp
next
  case (Cons x xs y ys)
  have le: "length (snd x) \<le> length (snd y)" using Cons.hyps(1) by (auto dest: list_emb_length)
  have les: "sum_list (map (\<lambda>e. length (snd e)) xs) \<le> sum_list (map (\<lambda>e. length (snd e)) ys)"
    using Cons.hyps(2) shrinks_total_len[of xs ys] by (simp add: shrinks_def total_len_def)
  show ?case
  proof (cases "xs = ys")
    case True
    then have "x \<noteq> y" using Cons.prems by simp
    then have "snd x \<noteq> snd y" using Cons.hyps(1) by (auto simp: prod_eq_iff)
    then have "length (snd x) < length (snd y)"
      using Cons.hyps(1) le subseq_same_length[of "snd x" "snd y"] by force
    then show ?thesis using True by simp
  next
    case False
    then show ?thesis using Cons.IH le by simp
  qed
qed

lemma shrinks_update:
  "subseq v (lookup old k) \<Longrightarrow> k \<in> fst ` set old \<Longrightarrow> shrinks (AList.update k v old) old"
  unfolding shrinks_def lookup_def
  by (induction old) (auto simp: list_all2_refl split: if_splits)

lemma assign_value_shrinks:
  "subseq value (lookup values box) \<Longrightarrow> shrinks (assign_value values box value) values"
proof (cases "box \<in> fst ` set values")
  case True
  assume "subseq value (lookup values box)"
  then show ?thesis using True by (simp add: assign_value_def shrinks_refl shrinks_update)
next
  case False
  then have "map_of values box = None" by (simp add: map_of_eq_None_iff)
  then have "lookup values box = []" by (simp add: lookup_def)
  moreover assume "subseq value (lookup values box)"
  ultimately show ?thesis by (auto simp: assign_value_def shrinks_refl)
qed

lemma fold_shrinks:
  "(\<And>x v. shrinks (f x v) v) \<Longrightarrow> shrinks (fold f xs v) v"
proof (induction xs arbitrary: v)
  case Nil
  then show ?case by (simp add: shrinks_refl)
next
  case (Cons x xs)
  show ?case using Cons.IH[OF Cons.prems, of "f x v"] Cons.prems[of x v]
    by (auto intro: shrinks_trans)
qed

lemma replace_subseq: "subseq (replace s old) s"
  by (simp add: replace_def)

lemma eliminate_box_shrinks: "shrinks (eliminate_box values box) values"
  unfolding eliminate_box_def Let_def
  by (auto intro!: fold_shrinks assign_value_shrinks replace_subseq simp: shrinks_refl)

lemma eliminate_shrinks: "shrinks (eliminate values) values"
  unfolding eliminate_def by (rule fold_shrinks) (rule eliminate_box_shrinks)

lemma sublist_single: "sublist [c] s \<longleftrightarrow> c \<in> set s"
  by (auto simp: sublist_def in_set_conv_decomp)

lemma only_choice_value_shrinks: "shrinks (only_choice_value unit values value) values"
proof -
  let ?bwv = "filter (\<lambda>box. sublist [value] (lookup values box)) unit"
  show ?thesis
  proof (cases "length ?bwv = 1")
    case True
    then have "?bwv ! 0 \<in> set ?bwv" by (metis nth_mem zero_less_one)
    then have "value \<in> set (lookup values (?bwv ! 0))" by (simp add: sublist_single)
    then have "subseq [value] (lookup values (?bwv ! 0))" by (simp add: subseq_singleton_left)
    then show ?thesis using True
      by (simp add: only_choice_value_def Let_def assign_value_shrinks)
  next
    case False
    then show ?thesis by (simp add: only_choice_value_def Let_def shrinks_refl)
  qed
qed

lemma only_choice_shrinks: "shrinks (only_choice values) values"
  unfolding only_choice_def
  by (intro fold_shrinks only_choice_value_shrinks)

lemma apply_removals_shrinks: "shrinks (apply_removals rs values) values"
  unfolding apply_removals_def
  by (intro fold_shrinks assign_value_shrinks replace_subseq)

lemma naked_twins_shrinks: "shrinks (naked_twins values) values"
  unfolding naked_twins_def by (rule apply_removals_shrinks)

section \<open>Reducer and search\<close>

text \<open>
  One round of the \<open>while\<close> loop of \<open>reduce_puzzle\<close> applies the three strategies in
  order; \<open>solved_values\<close> is the count the loop takes before and after the round.
  \<open>reduce_loop\<close> is the loop itself: it returns the board of the first round that leaves
  the count unchanged. \<open>reduce_passes\<close> follows the same recursion and counts the rounds
  the loop runs. \<open>reduce_puzzle\<close> returns \<open>None\<close> where the program returns \<open>False\<close>.

  \<open>chosen_box\<close> is the selection in \<open>search\<close>: the pairs (box, length) of the boxes with
  more than one candidate, sorted stably by length, and then Python's \<open>min\<close> of that list
  of tuples, which compares the box names first; \<open>min\<close> of an empty list raises
  ValueError, here the value \<open>None\<close> of \<open>py_min\<close>.

  A call of \<open>search\<close> ends in one of four ways: it returns a board, it returns
  \<open>False\<close>, it falls off the end of the function (Python's \<open>None\<close>), or \<open>min\<close> raises.
  \<open>first_attempt\<close> is the \<open>for\<close> loop over the candidates of the chosen box: the first
  attempt that is truthy is returned (a dictionary is truthy when it is not empty), an
  exception ends the loop, and a loop that runs out returns \<open>None\<close>.
\<close>

definition solved_values :: "board \<Rightarrow> nat" where
  "solved_values values =
     length (filter (\<lambda>box. length (lookup values box) = 1) (map fst values))"

definition reduce_pass :: "board \<Rightarrow> board" where
  "reduce_pass values = naked_twins (only_choice (eliminate values))"

lemma reduce_pass_shrinks: "shrinks (reduce_pass values) values"
  unfolding reduce_pass_def
  by (blast intro: shrinks_trans naked_twins_shrinks only_choice_shrinks eliminate_shrinks)

lemma reduce_pass_progress:
  "solved_values values \<noteq> solved_values (reduce_pass values) \<Longrightarrow>
   total_len (reduce_pass values) < total_len values"
  by (rule shrinks_total_len_less[OF reduce_pass_shrinks]) auto

function reduce_loop :: "board \<Rightarrow> board" where
  "reduce_loop values =
     (if solved_values values = solved_values (reduce_pass values)
      then reduce_pass values
      else reduce_loop (reduce_pass values))"
  by pat_completeness auto
termination
  by (relation "measure total_len") (auto intro: reduce_pass_progress)

declare reduce_loop.simps [simp del]

function reduce_passes :: "board \<Rightarrow> nat" where
  "reduce_passes values =
     (if solved_values values = solved_values (reduce_pass values)
      then 1
      else 1 + reduce_passes (reduce_pass values))"
  by pat_completeness auto
termination
  by (relation "measure total_len") (auto intro: reduce_pass_progress)

declare reduce_passes.simps [simp del]

definition reduce_puzzle :: "board \<Rightarrow> board option" where
  "reduce_puzzle values =
     (let values' = reduce_loop values;
          sanity_check = map snd values'
      in if [] \<in> set sanity_check then None else Some values')"

definition boxes_lengths :: "board \<Rightarrow> (box \<times> nat) list" where
  "boxes_lengths values =
     map (\<lambda>box. (box, length (lookup values box)))
       (filter (\<lambda>box. length (lookup values box) > 1) (map fst values))"

definition sorted_by_length :: "board \<Rightarrow> (box \<times> nat) list" where
  "sorted_by_length values = sort_key snd (boxes_lengths values)"

fun py_min :: "'a::linorder list \<Rightarrow> 'a option" where
  "py_min [] = None"
| "py_min (x # xs) = Some (fold (\<lambda>y m. if y < m then y else m) xs x)"

definition chosen_box :: "board \<Rightarrow> box option" where
  "chosen_box values = map_option fst (py_min (sorted_by_length values))"

datatype result = Dict board | PyFalse | PyNone | ValueError

fun truthy :: "result \<Rightarrow> bool" where
  "truthy (Dict values) = (values \<noteq> [])"
| "truthy PyFalse = False"
| "truthy PyNone = False"
| "truthy ValueError = False"

fun first_attempt :: "result list \<Rightarrow> result" where
  "first_attempt [] = PyNone"
| "first_attempt (attempt # rest) =
     (if attempt = ValueError then ValueError
      else if truthy attempt then attempt
      else first_attempt rest)"

lemma reduce_loop_shrinks: "shrinks (reduce_loop values) values"
proof (induction "values" rule: reduce_loop.induct)
  case (1 b)
  show ?case
  proof (cases "solved_values b = solved_values (reduce_pass b)")
    case True
    then have "reduce_loop b = reduce_pass b" by (subst reduce_loop.simps) simp
    then show ?thesis by (simp add: reduce_pass_shrinks)
  next
    case False
    then have eq: "reduce_loop b = reduce_loop (reduce_pass b)"
      by (subst reduce_loop.simps) simp
    from False have "shrinks (reduce_loop (reduce_pass b)) (reduce_pass b)"
      by (rule "1.IH")
    then show ?thesis unfolding eq using reduce_pass_shrinks[of b]
      by (rule shrinks_trans)
  qed
qed

lemma reduce_puzzle_shrinks: "reduce_puzzle values = Some values' \<Longrightarrow> shrinks values' values"
  by (auto simp: reduce_puzzle_def Let_def reduce_loop_shrinks split: if_splits)

lemma py_min_mem: "py_min xs = Some m \<Longrightarrow> m \<in> set xs"
proof -
  have "fold (\<lambda>y m. if y < m then y else m) ys x \<in> set (x # ys)" for x :: 'a and ys
    by (induction ys arbitrary: x) (auto split: if_splits)
  then show "py_min xs = Some m \<Longrightarrow> m \<in> set xs" by (cases xs) auto
qed

lemma chosen_box_unsolved:
  "chosen_box values = Some cb \<Longrightarrow> cb \<in> fst ` set values \<and> 1 < length (lookup values cb)"
proof -
  assume "chosen_box values = Some cb"
  then obtain n where "py_min (sorted_by_length values) = Some (cb, n)"
    by (auto simp: chosen_box_def)
  then have "(cb, n) \<in> set (boxes_lengths values)"
    using py_min_mem[of "sorted_by_length values" "(cb, n)"] by (simp add: sorted_by_length_def)
  then show ?thesis by (auto simp: boxes_lengths_def)
qed

lemma total_len_update:
  "k \<in> fst ` set values \<Longrightarrow>
   total_len (AList.update k v values) + length (lookup values k) = total_len values + length v"
  unfolding total_len_def lookup_def by (induction "values") auto

function search :: "board \<Rightarrow> result" where
  "search values =
     (case reduce_puzzle values of
        None \<Rightarrow> PyFalse
      | Some values' \<Rightarrow>
          if list_all (\<lambda>box. length (lookup values' box) = 1) boxes then Dict values'
          else (case chosen_box values' of
                  None \<Rightarrow> ValueError
                | Some cb \<Rightarrow>
                    first_attempt
                      (map (\<lambda>value. search (AList.update cb [value] values'))
                         (lookup values' cb))))"
  by pat_completeness auto
termination
proof (relation "measure total_len")
  show "wf (measure total_len)" by simp
next
  fix b r :: board and cb :: box and v :: char
  assume red: "reduce_puzzle b = Some r"
    and cb: "chosen_box r = Some cb"
  from red have le: "total_len r \<le> total_len b"
    by (intro shrinks_total_len reduce_puzzle_shrinks)
  from chosen_box_unsolved[OF cb] total_len_update[of cb r "[v]"]
  have "total_len (AList.update cb [v] r) < total_len r" by simp
  with le show "(AList.update cb [v] r, b) \<in> measure total_len" by simp
qed

declare search.simps [simp del]

definition solve :: "string \<Rightarrow> result" where
  "solve grid = search (grid2values grid)"

subsection \<open>The loop as an iteration of rounds\<close>

lemma reduce_loop_stalled:
  "solved_values b = solved_values (reduce_pass b) \<Longrightarrow> reduce_loop b = reduce_pass b"
  by (subst reduce_loop.simps) simp

lemma reduce_loop_continue:
  "solved_values b \<noteq> solved_values (reduce_pass b) \<Longrightarrow>
   reduce_loop b = reduce_loop (reduce_pass b)"
  by (subst reduce_loop.simps) simp

lemma reduce_passes_stalled:
  "solved_values b = solved_values (reduce_pass b) \<Longrightarrow> reduce_passes b = 1"
  by (subst reduce_passes.simps) simp

lemma reduce_passes_continue:
  "solved_values b \<noteq> solved_values (reduce_pass b) \<Longrightarrow>
   reduce_passes b = 1 + reduce_passes (reduce_pass b)"
  by (subst reduce_passes.simps) simp

lemma reduce_loop_funpow:
  "1 \<le> reduce_passes b \<and> reduce_passes b \<le> total_len b + 1 \<and>
   reduce_loop b = (reduce_pass ^^ reduce_passes b) b \<and>
   solved_values ((reduce_pass ^^ (reduce_passes b - 1)) b) =
     solved_values ((reduce_pass ^^ reduce_passes b) b)"
proof (induction b rule: reduce_loop.induct)
  case (1 b)
  show ?case
  proof (cases "solved_values b = solved_values (reduce_pass b)")
    case True
    then show ?thesis by (simp add: reduce_loop_stalled reduce_passes_stalled)
  next
    case False
    let ?n = "reduce_passes (reduce_pass b)"
    from False have ih: "1 \<le> ?n" "?n \<le> total_len (reduce_pass b) + 1"
      "reduce_loop (reduce_pass b) = (reduce_pass ^^ ?n) (reduce_pass b)"
      "solved_values ((reduce_pass ^^ (?n - 1)) (reduce_pass b)) =
         solved_values ((reduce_pass ^^ ?n) (reduce_pass b))"
      using "1.IH" by auto
    have n: "reduce_passes b = Suc ?n" using False by (simp add: reduce_passes_continue)
    have less: "total_len (reduce_pass b) < total_len b"
      using False by (rule reduce_pass_progress)
    have sw: "(reduce_pass ^^ k) (reduce_pass b) = (reduce_pass ^^ Suc k) b" for k
      by (simp add: funpow_swap1)
    from ih(1) obtain k where k: "?n = Suc k" by (cases ?n) auto
    have "solved_values ((reduce_pass ^^ ?n) b) = solved_values ((reduce_pass ^^ Suc ?n) b)"
      using ih(4) unfolding sw k by simp
    then show ?thesis
      using ih(2,3) less unfolding n sw reduce_loop_continue[OF False] by simp
  qed
qed

section \<open>Boards, peers and fixed points of the strategies\<close>

text \<open>
  \<open>board_keys\<close>: the keys of the dictionary are the 81 box names, each once. This is
  what \<open>grid2values\<close> builds and what every strategy preserves.
\<close>

definition board_keys :: "board \<Rightarrow> bool" where
  "board_keys values = (distinct (map fst values) \<and> set (map fst values) = set boxes)"

lemma shrinks_board_keys: "shrinks a b \<Longrightarrow> board_keys b \<Longrightarrow> board_keys a"
  by (simp add: board_keys_def shrinks_keys)

lemma board_keys_lookup:
  "board_keys b \<Longrightarrow> box \<in> set boxes \<Longrightarrow> map_of b box = Some (lookup b box)"
proof -
  assume "board_keys b" "box \<in> set boxes"
  then have "box \<in> fst ` set b" by (simp add: board_keys_def)
  then obtain v where "map_of b box = Some v"
    by (metis domD dom_map_of_conv_image_fst)
  then show ?thesis by (simp add: lookup_def)
qed

lemma lookup_update: "lookup (AList.update k v al) k' = (if k' = k then v else lookup al k')"
  by (simp add: lookup_def update_conv')

lemma lookup_assign_value:
  "lookup (assign_value b box v) k = (if k = box then v else lookup b k)"
  by (auto simp: assign_value_def lookup_update)

lemma assign_value_same: "assign_value b box (lookup b box) = b"
  by (simp add: assign_value_def)

lemma peers_iff:
  "p \<in> set (peers s) \<longleftrightarrow> p \<noteq> s \<and> (\<exists>u\<in>set unitlist. s \<in> set u \<and> p \<in> set u)"
  by (auto simp: peers_def units_def)

lemma peers_sym: "p \<in> set (peers s) \<Longrightarrow> s \<in> set (peers p)"
  by (auto simp: peers_iff)

lemma peers_irrefl: "s \<notin> set (peers s)"
  by (simp add: peers_iff)

lemma distinct_peers: "distinct (peers s)"
  by (simp add: peers_def distinct_removeAll)

lemma replace_idem: "replace (replace s old) old = replace s old"
  by (simp add: replace_def)

lemma replace_single: "replace s [c] = filter (\<lambda>x. x \<noteq> c) s"
  by (simp add: replace_def)

lemma replace_same_iff: "replace s [c] = s \<longleftrightarrow> c \<notin> set s"
  by (auto simp: replace_single filter_id_conv)

lemma lookup_fold_replace:
  "lookup (fold (\<lambda>peer vs. assign_value vs peer (replace (lookup vs peer) bv)) ps b) k =
     (if k \<in> set ps then replace (lookup b k) bv else lookup b k)"
  by (induction ps arbitrary: b) (auto simp: lookup_assign_value replace_idem)

lemma lookup_eliminate_box:
  "lookup (eliminate_box b box) k =
     (if length (lookup b box) = 1 \<and> k \<in> set (peers box)
      then replace (lookup b k) (lookup b box) else lookup b k)"
  by (simp add: eliminate_box_def Let_def lookup_fold_replace)

lemma fold_same: "(\<And>x. x \<in> set xs \<Longrightarrow> f x v = v) \<Longrightarrow> fold f xs v = v"
  by (induction xs) auto

lemma fold_shrinks_fixed:
  assumes sh: "\<And>x v. shrinks (f x v) v" and fx: "fold f xs v = v" and x: "x \<in> set xs"
  shows "f x v = v"
  using fx x
proof (induction xs)
  case Nil
  then show ?case by simp
next
  case (Cons y ys)
  have "shrinks (fold f ys (f y v)) (f y v)" by (rule fold_shrinks) (rule sh)
  then have "shrinks v (f y v)" using Cons.prems(1) by simp
  then have y: "f y v = v" using sh[of y v] by (rule shrinks_antisym[rotated])
  then have "fold f ys v = v" using Cons.prems(1) by simp
  then show ?case using Cons.IH Cons.prems(2) y by auto
qed

lemma eliminate_box_same:
  assumes "length (lookup b box) = 1 \<Longrightarrow>
             (\<And>p. p \<in> set (peers box) \<Longrightarrow> replace (lookup b p) (lookup b box) = lookup b p)"
  shows "eliminate_box b box = b"
proof (cases "length (lookup b box) = 1")
  case True
  have "fold (\<lambda>peer vs. assign_value vs peer (replace (lookup vs peer) (lookup b box)))
          (peers box) b = b"
    by (rule fold_same) (simp add: assms[OF True] assign_value_same)
  then show ?thesis using True by (simp add: eliminate_box_def Let_def)
next
  case False
  then show ?thesis by (simp add: eliminate_box_def)
qed

lemma eliminate_same:
  "(\<And>box. box \<in> fst ` set b \<Longrightarrow> eliminate_box b box = b) \<Longrightarrow> eliminate b = b"
  unfolding eliminate_def by (rule fold_same) auto

lemma eliminate_fixed_box:
  assumes "eliminate b = b" and "box \<in> fst ` set b"
  shows "eliminate_box b box = b"
  using fold_shrinks_fixed[where f = "\<lambda>box vs. eliminate_box vs box" and xs = "map fst b" and v = b
      and x = box] assms
  by (simp add: eliminate_def eliminate_box_shrinks)

lemma eliminate_fixed_peers:
  assumes fx: "eliminate b = b" and box: "box \<in> fst ` set b"
    and one: "lookup b box = [c]" and p: "p \<in> set (peers box)"
  shows "c \<notin> set (lookup b p)"
proof -
  have "lookup (eliminate_box b box) p = replace (lookup b p) [c]"
    using one p by (simp add: lookup_eliminate_box)
  then have "replace (lookup b p) [c] = lookup b p"
    using eliminate_fixed_box[OF fx box] by simp
  then show ?thesis by (simp add: replace_same_iff)
qed

subsection \<open>Solved boards\<close>

text \<open>
  \<open>solved\<close> is the test \<open>all(len(values[box]) == 1 for box in boxes)\<close> of \<open>search\<close>;
  \<open>peers_differ\<close> says that no box holds the same string as one of its peers.
\<close>

definition solved :: "board \<Rightarrow> bool" where
  "solved values = list_all (\<lambda>box. length (lookup values box) = 1) boxes"

definition peers_differ :: "board \<Rightarrow> bool" where
  "peers_differ values =
     list_all (\<lambda>box. list_all (\<lambda>p. lookup values p \<noteq> lookup values box) (peers box)) boxes"

lemma unitlist_facts:
  "list_all (\<lambda>u. distinct u \<and> length u = 9 \<and> list_all (\<lambda>b. b \<in> set boxes) u) unitlist"
  by code_simp

lemma unit_boxes: "u \<in> set unitlist \<Longrightarrow> b \<in> set u \<Longrightarrow> b \<in> set boxes"
  using unitlist_facts by (auto simp: list_all_iff)

lemma unit_distinct: "u \<in> set unitlist \<Longrightarrow> distinct u"
  using unitlist_facts by (auto simp: list_all_iff)

lemma unit_length: "u \<in> set unitlist \<Longrightarrow> length u = 9"
  using unitlist_facts by (auto simp: list_all_iff)

lemma peers_boxes: "p \<in> set (peers s) \<Longrightarrow> p \<in> set boxes"
  by (auto simp: peers_iff intro: unit_boxes)

lemma solved_lookup: "solved b \<Longrightarrow> box \<in> set boxes \<Longrightarrow> length (lookup b box) = 1"
  by (simp add: solved_def list_all_iff)

lemma board_keys_mem: "board_keys b \<Longrightarrow> box \<in> fst ` set b \<longleftrightarrow> box \<in> set boxes"
  by (auto simp: board_keys_def)

lemma only_choice_value_same:
  assumes "length (filter (\<lambda>box. sublist [v] (lookup b box)) unit) = 1 \<Longrightarrow>
           lookup b (filter (\<lambda>box. sublist [v] (lookup b box)) unit ! 0) = [v]"
  shows "only_choice_value unit b v = b"
  using assms by (auto simp: only_choice_value_def Let_def assign_value_def)

lemma only_choice_same:
  assumes "\<And>unit v. unit \<in> set unitlist \<Longrightarrow> v \<in> set ''123456789'' \<Longrightarrow>
             only_choice_value unit b v = b"
  shows "only_choice b = b"
  unfolding only_choice_def
  by (rule fold_same, rule fold_same) (rule assms)

lemma only_choice_value_short:
  assumes "\<And>box. box \<in> set unit \<Longrightarrow> length (lookup b box) \<le> 1"
  shows "only_choice_value unit b v = b"
proof (rule only_choice_value_same)
  let ?bwv = "filter (\<lambda>box. sublist [v] (lookup b box)) unit"
  assume "length ?bwv = 1"
  then have "?bwv ! 0 \<in> set ?bwv" by (metis nth_mem zero_less_one)
  then have "?bwv ! 0 \<in> set unit" and v: "v \<in> set (lookup b (?bwv ! 0))"
    by (simp_all add: sublist_single)
  then have "length (lookup b (?bwv ! 0)) \<le> 1" using assms by blast
  with v show "lookup b (?bwv ! 0) = [v]"
    by (cases "lookup b (?bwv ! 0)") auto
qed

lemma only_choice_solved: "solved b \<Longrightarrow> only_choice b = b"
  by (rule only_choice_same, rule only_choice_value_short)
     (auto dest: unit_boxes solved_lookup)

lemma naked_twins_no_doubles: "doubles b = [] \<Longrightarrow> naked_twins b = b"
  by (simp add: naked_twins_def values_to_replace_def twins_def apply_removals_def)

lemma doubles_solved: "board_keys b \<Longrightarrow> solved b \<Longrightarrow> doubles b = []"
  by (auto simp: doubles_def filter_empty_conv board_keys_def dest!: solved_lookup)

lemma peers_differ_iff:
  "peers_differ b \<longleftrightarrow> (\<forall>box\<in>set boxes. \<forall>p\<in>set (peers box). lookup b p \<noteq> lookup b box)"
  by (simp add: peers_differ_def list_all_iff)

lemma eliminate_solved_iff:
  assumes keys: "board_keys b" and sol: "solved b"
  shows "eliminate b = b \<longleftrightarrow> peers_differ b"
proof
  assume fx: "eliminate b = b"
  show "peers_differ b"
    unfolding peers_differ_iff
  proof (intro ballI)
    fix box p assume box: "box \<in> set boxes" and p: "p \<in> set (peers box)"
    from solved_lookup[OF sol box] obtain c where c: "lookup b box = [c]"
      by (cases "lookup b box") auto
    from box keys have "box \<in> fst ` set b" by (simp add: board_keys_mem)
    from eliminate_fixed_peers[OF fx this c p] show "lookup b p \<noteq> lookup b box"
      using c by auto
  qed
next
  assume pd: "peers_differ b"
  show "eliminate b = b"
  proof (rule eliminate_same, rule eliminate_box_same)
    fix box p
    assume box: "box \<in> fst ` set b" and one: "length (lookup b box) = 1"
      and p: "p \<in> set (peers box)"
    from box keys have bx: "box \<in> set boxes" by (simp add: board_keys_mem)
    from one obtain c where c: "lookup b box = [c]"
      by (cases "lookup b box") auto
    from solved_lookup[OF sol peers_boxes[OF p]] obtain d where d: "lookup b p = [d]"
      by (cases "lookup b p") auto
    from pd bx p have "lookup b p \<noteq> lookup b box" by (auto simp: peers_differ_iff)
    then show "replace (lookup b p) (lookup b box) = lookup b p"
      using c d by (simp add: replace_def)
  qed
qed

subsection \<open>Boards built from a grid of equal characters\<close>

lemma boxes_facts: "distinct boxes \<and> length boxes = 81"
  by code_simp

lemma grid2values_replicate:
  "grid2values (replicate 81 c) =
     map (\<lambda>box. (box, if c = CHR ''.'' then ''123456789'' else [c])) boxes"
  using boxes_facts by (simp add: grid2values_def zip_replicate1 comp_def)

lemma board_keys_map: "board_keys (map (\<lambda>box. (box, f box)) boxes)"
  using boxes_facts by (simp add: board_keys_def comp_def)

lemma lookup_map: "box \<in> set boxes \<Longrightarrow> lookup (map (\<lambda>box. (box, f box)) boxes) box = f box"
proof -
  have "map_of (map (\<lambda>k. (k, f k)) ks) k = Some (f k)" if "k \<in> set ks" for ks :: "box list" and k
    using that by (induction ks) auto
  then show "box \<in> set boxes \<Longrightarrow> ?thesis" by (simp add: lookup_def)
qed

lemma board_keys_uniform: "board_keys (grid2values (replicate 81 c))"
  unfolding grid2values_replicate by (rule board_keys_map)

lemma lookup_uniform:
  "box \<in> set boxes \<Longrightarrow>
   lookup (grid2values (replicate 81 c)) box = (if c = CHR ''.'' then ''123456789'' else [c])"
  unfolding grid2values_replicate by (simp add: lookup_map)

lemma A2_peer_A1: "''A2'' \<in> set (peers ''A1'') \<and> ''A1'' \<in> set boxes"
  by code_simp

lemma all_ones_solved: "solved (grid2values (replicate 81 CHR ''1''))"
  by (simp add: solved_def list_all_iff lookup_uniform)

lemma all_ones_not_differ: "\<not> peers_differ (grid2values (replicate 81 CHR ''1''))"
proof -
  have "''A2'' \<in> set boxes" using A2_peer_A1 peers_boxes by blast
  then have "lookup (grid2values (replicate 81 CHR ''1'')) ''A2'' =
             lookup (grid2values (replicate 81 CHR ''1'')) ''A1''"
    using A2_peer_A1 by (simp add: lookup_uniform)
  then show ?thesis
    unfolding peers_differ_iff using A2_peer_A1 by blast
qed

lemma shrinks_empty: "shrinks a b \<Longrightarrow> [] \<in> set (map snd b) \<Longrightarrow> [] \<in> set (map snd a)"
  unfolding shrinks_def by (induction a b rule: list_all2_induct) auto

lemma shrinks_eqI:
  assumes "shrinks a b" and "distinct (map fst b)"
    and "\<And>k. k \<in> fst ` set b \<Longrightarrow> lookup a k = lookup b k"
  shows "a = b"
  using assms unfolding shrinks_def
proof (induction a b rule: list_all2_induct)
  case Nil
  then show ?case by simp
next
  case (Cons x xs y ys)
  have k: "fst x = fst y" using Cons.hyps(1) by simp
  have "lookup (x # xs) (fst y) = lookup (y # ys) (fst y)" using Cons.prems(2) by simp
  then have "snd x = snd y" using k by (simp add: lookup_def)
  then have xy: "x = y" using k by (simp add: prod_eq_iff)
  have "lookup xs k' = lookup ys k'" if "k' \<in> fst ` set ys" for k'
  proof -
    have "fst y \<notin> fst ` set ys" using Cons.prems(1) by simp
    with that have "k' \<noteq> fst y" by blast
    then show ?thesis using Cons.prems(2)[of k'] that k by (simp add: lookup_def)
  qed
  then show ?case using Cons.IH Cons.prems(1) xy by simp
qed

lemma lookup_in_values: "k \<in> fst ` set b \<Longrightarrow> lookup b k \<in> set (map snd b)"
proof -
  assume "k \<in> fst ` set b"
  then obtain v where v: "map_of b k = Some v" by (metis domD dom_map_of_conv_image_fst)
  then have "(k, v) \<in> set b" by (rule map_of_SomeD)
  then show ?thesis using v by (force simp: lookup_def)
qed

lemma solved_values_mono:
  assumes sh: "shrinks a b" and ne: "[] \<notin> set (map snd a)"
  shows "solved_values b \<le> solved_values a"
proof -
  have keys: "map fst a = map fst b" using sh by (rule shrinks_keys)
  have "length (lookup a k) = 1" if k: "k \<in> set (map fst b)" and one: "length (lookup b k) = 1" for k
  proof -
    have "lookup a k \<noteq> []" using lookup_in_values[of k a] k keys ne by (metis image_set)
    moreover have "length (lookup a k) \<le> 1"
      using shrinks_lookup[OF sh, of k] one by (metis list_emb_length)
    ultimately show ?thesis by (cases "lookup a k") auto
  qed
  note one = this
  have le: "length (filter P xs) \<le> length (filter Q xs)"
    if "\<And>x. x \<in> set xs \<Longrightarrow> P x \<Longrightarrow> Q x" for P Q and xs :: "box list"
    using that by (induction xs) auto
  show ?thesis unfolding solved_values_def keys
    by (rule le) (rule one)
qed

section \<open>Properties of the propagation strategies\<close>

text \<open>
  C10. Every propagation operation only shrinks candidate sets: for each of
  \<open>eliminate\<close>, \<open>only_choice\<close> and \<open>naked_twins\<close>, on any board and for every box, the
  candidate string after the operation is an order-preserving subsequence of the string
  before it, so no candidate is ever added; the keys of the board stay as they were.
\<close>

theorem propagation_only_shrinks:
  "subseq (lookup (eliminate values) box) (lookup values box) \<and>
   subseq (lookup (only_choice values) box) (lookup values box) \<and>
   subseq (lookup (naked_twins values) box) (lookup values box) \<and>
   set (lookup (eliminate values) box) \<subseteq> set (lookup values box) \<and>
   set (lookup (only_choice values) box) \<subseteq> set (lookup values box) \<and>
   set (lookup (naked_twins values) box) \<subseteq> set (lookup values box) \<and>
   map fst (eliminate values) = map fst values \<and>
   map fst (only_choice values) = map fst values \<and>
   map fst (naked_twins values) = map fst values"
proof -
  have sub: "shrinks new old \<Longrightarrow>
      subseq (lookup new box) (lookup old box) \<and> set (lookup new box) \<subseteq> set (lookup old box) \<and>
      map fst new = map fst old" for new old
    using shrinks_lookup[of new old box] shrinks_keys[of new old]
    by (auto dest: list_emb_set)
  show ?thesis
    using sub[OF eliminate_shrinks[of "values"]] sub[OF only_choice_shrinks[of "values"]]
      sub[OF naked_twins_shrinks[of "values"]]
    by blast
qed

definition pass_stages :: "board \<Rightarrow> board list" where
  "pass_stages values =
     [values, eliminate values, only_choice (eliminate values), reduce_pass values]"

definition solved_grid :: string where
  "solved_grid =
     ''267945381853716249491823576576438192384192657129657438642379815935281764718564923''"

lemma grid2values_keys: "length grid = 81 \<Longrightarrow> board_keys (grid2values grid)"
proof -
  assume len: "length grid = 81"
  have "map fst (grid2values grid) = map snd (zip grid boxes)"
    by (simp add: grid2values_def case_prod_beta comp_def)
  also have "\<dots> = boxes" using len boxes_facts by simp
  finally show ?thesis using boxes_facts by (simp add: board_keys_def)
qed

lemma grid2values_cells:
  "e \<in> set (grid2values grid) \<Longrightarrow> CHR ''.'' \<notin> set grid \<Longrightarrow> length (snd e) = 1"
  by (auto simp: grid2values_def dest: set_zip_leftD)

lemma grid_solved:
  assumes "length grid = 81" and "CHR ''.'' \<notin> set grid"
  shows "solved (grid2values grid)"
  unfolding solved_def list_all_iff
proof
  fix box assume "box \<in> set boxes"
  then have "box \<in> fst ` set (grid2values grid)"
    using grid2values_keys[OF assms(1)] by (simp add: board_keys_mem)
  then have "lookup (grid2values grid) box \<in> set (map snd (grid2values grid))"
    by (rule lookup_in_values)
  then show "length (lookup (grid2values grid) box) = 1"
    using grid2values_cells[OF _ assms(2)] by auto
qed

lemma units_distinct_peers_differ:
  assumes "list_all (\<lambda>u. distinct (map (lookup b) u)) unitlist"
  shows "peers_differ b"
  unfolding peers_differ_iff
proof (intro ballI)
  fix box p assume "box \<in> set boxes" and "p \<in> set (peers box)"
  then obtain u where u: "u \<in> set unitlist" "box \<in> set u" "p \<in> set u" and ne: "p \<noteq> box"
    by (auto simp: peers_iff)
  from assms u(1) have "inj_on (lookup b) (set u)"
    by (simp add: list_all_iff distinct_map)
  with u(2,3) ne show "lookup b p \<noteq> lookup b box" by (auto dest: inj_onD)
qed

lemma solved_grid_units:
  "list_all (\<lambda>u. distinct (map (lookup (grid2values solved_grid)) u)) unitlist"
  by code_simp

lemma solved_grid_facts:
  "length solved_grid = 81 \<and> CHR ''.'' \<notin> set solved_grid \<and>
   list_all (\<lambda>c. c \<in> set ''123456789'') solved_grid"
  by code_simp

lemma solved_grid_board:
  "board_keys (grid2values solved_grid) \<and> solved (grid2values solved_grid) \<and>
   peers_differ (grid2values solved_grid)"
  using solved_grid_facts solved_grid_units
  by (simp add: grid2values_keys grid_solved units_distinct_peers_differ)

lemma reduce_pass_solved:
  assumes "board_keys b" "solved b" "peers_differ b"
  shows "reduce_pass b = b"
proof -
  have "eliminate b = b" using assms by (simp add: eliminate_solved_iff)
  moreover have "only_choice b = b" using assms(2) by (rule only_choice_solved)
  moreover have "naked_twins b = b"
    using assms(1,2) by (simp add: naked_twins_no_doubles doubles_solved)
  ultimately show ?thesis by (simp add: reduce_pass_def)
qed

subsection \<open>Solved boards: every unit a permutation of the digits\<close>

text \<open>
  A board is Solved when every cell holds exactly one candidate (the test of \<open>search\<close>,
  \<open>solved\<close>) and, for every one of the 29 units of \<open>unitlist\<close>, the digits of its nine
  cells are a permutation of \<open>'123456789'\<close>.
\<close>

definition unit_permutation :: "board \<Rightarrow> box list \<Rightarrow> bool" where
  "unit_permutation values u \<longleftrightarrow> mset (concat (map (lookup values) u)) = mset ''123456789''"

definition Solved :: "board \<Rightarrow> bool" where
  "Solved values \<longleftrightarrow> solved values \<and> list_all (unit_permutation values) unitlist"

lemma distinct_concat_singletons:
  "(\<And>x. x \<in> set xs \<Longrightarrow> length x = 1) \<Longrightarrow> distinct (concat xs) \<Longrightarrow> distinct xs"
proof (induction xs)
  case Nil
  then show ?case by simp
next
  case (Cons x xs)
  from Cons.prems(1)[of x] obtain c where c: "x = [c]" by (cases x) auto
  have "x \<notin> set xs"
  proof
    assume "x \<in> set xs"
    then have "c \<in> set (concat xs)" using c by (auto intro: bexI[of _ "[c]"])
    with Cons.prems(2) c show False by simp
  qed
  moreover have "distinct xs" using Cons by simp
  ultimately show ?case by simp
qed

lemma Solved_units_distinct:
  assumes "Solved b"
  shows "list_all (\<lambda>u. distinct (map (lookup b) u)) unitlist"
  unfolding list_all_iff
proof
  fix u assume u: "u \<in> set unitlist"
  from assms u have "mset (concat (map (lookup b) u)) = mset ''123456789''"
    by (simp add: Solved_def unit_permutation_def list_all_iff)
  then have "distinct (concat (map (lookup b) u)) \<longleftrightarrow> distinct ''123456789''"
    by (rule mset_eq_imp_distinct_iff)
  then have "distinct (concat (map (lookup b) u))" by simp
  moreover have "length x = 1" if "x \<in> set (map (lookup b) u)" for x
    using that assms u by (auto simp: Solved_def dest: unit_boxes solved_lookup)
  ultimately show "distinct (map (lookup b) u)"
    by (rule distinct_concat_singletons[rotated])
qed

lemma Solved_peers_differ: "Solved b \<Longrightarrow> peers_differ b"
  by (rule units_distinct_peers_differ) (rule Solved_units_distinct)

lemma digits_permutation:
  assumes "distinct xs" and "length xs = 9" and "set xs \<subseteq> set ''123456789''"
  shows "mset xs = mset ''123456789''"
proof -
  have c9: "card (set ''123456789'') = 9" by (simp add: card_insert_if)
  have "card (set xs) = 9" using distinct_card[OF assms(1)] assms(2) by simp
  with c9 have "card (set xs) = card (set ''123456789'')" by simp
  with assms(3) have eq: "set xs = set ''123456789''"
    by (intro card_subset_eq) (rule finite_set)
  have d: "distinct ''123456789''" by simp
  from eq show ?thesis
    by (rule iffD1[OF set_eq_iff_mset_eq_distinct[OF assms(1) d]])
qed

lemma concat_singletons:
  "(\<And>x. x \<in> set xs \<Longrightarrow> length x = 1) \<Longrightarrow> distinct xs \<Longrightarrow>
   distinct (concat xs) \<and> length (concat xs) = length xs"
proof (induction xs)
  case Nil
  then show ?case by simp
next
  case (Cons x xs)
  from Cons.prems(1)[of x] obtain c where c: "x = [c]" by (cases x) auto
  have "c \<notin> set (concat xs)"
  proof
    assume "c \<in> set (concat xs)"
    then obtain y where y: "y \<in> set xs" "c \<in> set y" by auto
    with Cons.prems(1)[of y] have "y = [c]" by (cases y) auto
    with y(1) c Cons.prems(2) show False by simp
  qed
  then show ?case using Cons c by simp
qed

lemma grid2values_digit:
  assumes "e \<in> set (grid2values grid)" and "CHR ''.'' \<notin> set grid"
  shows "set (snd e) \<subseteq> set grid"
  using assms by (auto simp: grid2values_def split: if_splits dest: set_zip_leftD)

lemma solved_grid_Solved: "Solved (grid2values solved_grid)"
proof -
  let ?g = "grid2values solved_grid"
  have keys: "board_keys ?g" and sol: "solved ?g" using solved_grid_board by simp_all
  have dig: "set solved_grid \<subseteq> set ''123456789''"
    using solved_grid_facts unfolding list_all_iff by blast
  have "unit_permutation ?g u" if u: "u \<in> set unitlist" for u
    unfolding unit_permutation_def
  proof (rule digits_permutation)
    have one: "length x = 1" if "x \<in> set (map (lookup ?g) u)" for x
      using that u sol by (auto dest: unit_boxes solved_lookup)
    have d: "distinct (map (lookup ?g) u)"
      using u solved_grid_units by (simp add: list_all_iff)
    from concat_singletons[OF one d] unit_length[OF u]
    show "distinct (concat (map (lookup ?g) u))"
      and "length (concat (map (lookup ?g) u)) = 9" by simp_all
    show "set (concat (map (lookup ?g) u)) \<subseteq> set ''123456789''"
    proof
      fix c assume "c \<in> set (concat (map (lookup ?g) u))"
      then obtain box where box: "box \<in> set u" and c: "c \<in> set (lookup ?g box)" by auto
      from box u keys have "box \<in> fst ` set ?g" by (simp add: board_keys_mem unit_boxes)
      then have "lookup ?g box \<in> set (map snd ?g)" by (rule lookup_in_values)
      then obtain e where "e \<in> set ?g" and "snd e = lookup ?g box" by auto
      with grid2values_digit[of e solved_grid] solved_grid_facts c
      have "c \<in> set solved_grid" by auto
      with dig show "c \<in> set ''123456789''" by blast
    qed
  qed
  then show ?thesis using sol by (simp add: Solved_def list_all_iff)
qed

lemma eliminate_all_ones:
  "eliminate (grid2values (replicate 81 CHR ''1'')) \<noteq> grid2values (replicate 81 CHR ''1'')"
  using all_ones_not_differ eliminate_solved_iff[OF board_keys_uniform all_ones_solved]
  by simp

text \<open>
  C9. Each of \<open>eliminate\<close>, \<open>only_choice\<close> and \<open>naked_twins\<close> is idempotent on an
  already-solved board: on a board that carries the 81 boxes and is Solved (every cell
  holds exactly one candidate and every unit is a permutation of the digits), each of the
  three strategies returns a board identical to its input.
\<close>

theorem strategies_idempotent_on_solved:
  assumes "board_keys values" and "Solved values"
  shows "eliminate values = values \<and> only_choice values = values \<and>
         naked_twins values = values"
proof -
  have s: "solved values" using assms(2) by (simp add: Solved_def)
  have "eliminate values = values"
    using assms(1) s Solved_peers_differ[OF assms(2)] by (simp add: eliminate_solved_iff)
  moreover have "only_choice values = values" using s by (rule only_choice_solved)
  moreover have "naked_twins values = values"
    using assms(1) s by (simp add: naked_twins_no_doubles doubles_solved)
  ultimately show ?thesis by simp
qed

theorem strategies_idempotent_on_solved_witness:
  "board_keys (grid2values solved_grid) \<and> Solved (grid2values solved_grid) \<and>
   eliminate (grid2values solved_grid) = grid2values solved_grid \<and>
   only_choice (grid2values solved_grid) = grid2values solved_grid \<and>
   naked_twins (grid2values solved_grid) = grid2values solved_grid"
  using strategies_idempotent_on_solved[of "grid2values solved_grid"]
    solved_grid_board solved_grid_Solved
  by simp

lemma solved_values_all:
  "(\<And>k. k \<in> fst ` set b \<Longrightarrow> length (lookup b k) = 1) \<Longrightarrow> solved_values b = length b"
  by (simp add: solved_values_def)

lemma solved_values_less:
  "k \<in> fst ` set b \<Longrightarrow> length (lookup b k) \<noteq> 1 \<Longrightarrow> solved_values b < length b"
proof -
  assume "k \<in> fst ` set b" and "length (lookup b k) \<noteq> 1"
  then have "length (filter (\<lambda>k. length (lookup b k) = 1) (map fst b)) < length (map fst b)"
    by (intro length_filter_less[of k]) auto
  then show ?thesis by (simp add: solved_values_def)
qed

lemma shrinks_length: "shrinks a b \<Longrightarrow> length a = length b"
  by (simp add: shrinks_def list_all2_lengthD)

lemma subseq_single: "subseq xs [c] \<Longrightarrow> xs \<noteq> [c] \<Longrightarrow> xs = []"
proof -
  assume a: "subseq xs [c]" and b: "xs \<noteq> [c]"
  have "length xs \<le> 1" using list_emb_length[OF a] by simp
  moreover have "length xs \<noteq> 1" using subseq_same_length[OF a] b by auto
  ultimately have "length xs = 0" by linarith
  then show "xs = []" by simp
qed

lemma all_ones_pass:
  "\<exists>k \<in> fst ` set (grid2values (replicate 81 CHR ''1'')).
     lookup (reduce_pass (grid2values (replicate 81 CHR ''1''))) k = []"
proof -
  let ?b = "grid2values (replicate 81 CHR ''1'')"
  have keys: "board_keys ?b" by (rule board_keys_uniform)
  have ne: "eliminate ?b \<noteq> ?b"
    using all_ones_not_differ eliminate_solved_iff[OF keys all_ones_solved] by simp
  have "\<exists>k \<in> fst ` set ?b. lookup (eliminate ?b) k \<noteq> lookup ?b k"
  proof (rule ccontr)
    assume "\<not> ?thesis"
    then have same: "\<And>k. k \<in> fst ` set ?b \<Longrightarrow> lookup (eliminate ?b) k = lookup ?b k"
      by blast
    have "distinct (map fst ?b)" using keys by (simp add: board_keys_def)
    with eliminate_shrinks have "eliminate ?b = ?b"
      by (rule shrinks_eqI) (rule same)
    with ne show False by simp
  qed
  then obtain k where k: "k \<in> fst ` set ?b" and d: "lookup (eliminate ?b) k \<noteq> lookup ?b k"
    by blast
  from k keys have "k \<in> set boxes" by (simp add: board_keys_mem)
  then have one: "lookup ?b k = ''1''" by (simp add: lookup_uniform)
  have "subseq (lookup (eliminate ?b) k) ''1''"
    using shrinks_lookup[OF eliminate_shrinks, of ?b k] one by simp
  with d one have e: "lookup (eliminate ?b) k = []"
    by (simp add: subseq_single)
  have "shrinks (reduce_pass ?b) (eliminate ?b)"
    unfolding reduce_pass_def
    by (blast intro: shrinks_trans naked_twins_shrinks only_choice_shrinks)
  from shrinks_lookup[OF this, of k] e have "lookup (reduce_pass ?b) k = []" by simp
  with k show ?thesis by blast
qed

lemma all_ones_count:
  "solved_values (reduce_pass (grid2values (replicate 81 CHR ''1''))) <
   solved_values (grid2values (replicate 81 CHR ''1''))"
proof -
  let ?b = "grid2values (replicate 81 CHR ''1'')"
  from all_ones_pass obtain k where k: "k \<in> fst ` set ?b"
    and e: "lookup (reduce_pass ?b) k = []" by blast
  have keys: "map fst (reduce_pass ?b) = map fst ?b"
    using reduce_pass_shrinks by (rule shrinks_keys)
  then have "fst ` set (reduce_pass ?b) = fst ` set ?b" by (metis image_set)
  with k e have "solved_values (reduce_pass ?b) < length (reduce_pass ?b)"
    by (intro solved_values_less[of k]) auto
  moreover have "length (reduce_pass ?b) = length ?b"
    using reduce_pass_shrinks by (rule shrinks_length)
  moreover have "solved_values ?b = length ?b"
  proof (rule solved_values_all)
    fix k assume "k \<in> fst ` set ?b"
    then have "k \<in> set boxes" using board_keys_uniform by (simp add: board_keys_mem)
    then show "length (lookup ?b k) = 1" by (simp add: lookup_uniform)
  qed
  ultimately show ?thesis by simp
qed

text \<open>
  C5 (amended). Across a full round of \<open>reduce_puzzle\<close> (elimination, then only choice,
  then naked twins) the count of solved cells does not decrease, unless the round leaves
  some cell with no candidate: a cell that held one candidate keeps it or loses it.
\<close>

theorem reducer_monotone_without_contradiction:
  "[] \<notin> set (map snd (reduce_pass values)) \<Longrightarrow>
   solved_values values \<le> solved_values (reduce_pass values)"
  by (rule solved_values_mono[OF reduce_pass_shrinks])

theorem reducer_monotone_without_contradiction_witness:
  "[] \<notin> set (map snd (reduce_pass (grid2values solved_grid))) \<and>
   solved_values (grid2values solved_grid) \<le> solved_values (reduce_pass (grid2values solved_grid))"
proof -
  have same: "reduce_pass (grid2values solved_grid) = grid2values solved_grid"
    using solved_grid_board by (simp add: reduce_pass_solved)
  have ne: "[] \<notin> set (map snd (grid2values solved_grid))"
    using grid2values_cells[of _ solved_grid] solved_grid_facts by fastforce
  have h: "[] \<notin> set (map snd (reduce_pass (grid2values solved_grid)))"
    unfolding same by (rule ne)
  show ?thesis using h reducer_monotone_without_contradiction[OF h] by simp
qed

text \<open>
  The claim as it is written fails: in the first round on the board of the grid of 81
  ones, elimination empties peers of solved cells and the count of solved cells drops.
\<close>

theorem solved_count_drops_on_all_ones:
  "solved_values (reduce_pass (grid2values (replicate 81 CHR ''1''))) <
   solved_values (grid2values (replicate 81 CHR ''1''))"
  by (rule all_ones_count)

subsection \<open>The branching cell\<close>

lemma py_min_Min: "py_min (x # xs) = Some (Min (set (x # xs)))"
proof -
  have "(\<lambda>y m. if y < m then y else m) = (min :: 'a \<Rightarrow> 'a \<Rightarrow> 'a)"
    by (auto simp: fun_eq_iff min_def)
  then have "py_min (x # xs) = Some (fold min xs x)" by simp
  also have "fold min xs x = Min (set (x # xs))" by (rule Min.set_eq_fold[symmetric])
  finally show ?thesis .
qed

lemma py_min_least:
  assumes "m \<in> set xs" and "\<And>x. x \<in> set xs \<Longrightarrow> m \<le> x"
  shows "py_min xs = Some m"
proof -
  from assms(1) obtain y ys where xs: "xs = y # ys" by (cases xs) auto
  have "Min (set xs) = m" using assms by (intro Min_eqI) auto
  then show ?thesis unfolding xs py_min_Min by simp
qed

lemma chosen_box_least:
  assumes k: "k \<in> fst ` set b" and u: "1 < length (lookup b k)"
    and least: "\<And>k'. k' \<in> fst ` set b \<Longrightarrow> 1 < length (lookup b k') \<Longrightarrow> k \<le> k'"
  shows "chosen_box b = Some k"
proof -
  have "py_min (sorted_by_length b) = Some (k, length (lookup b k))"
  proof (rule py_min_least)
    show "(k, length (lookup b k)) \<in> set (sorted_by_length b)"
      using k u by (auto simp: sorted_by_length_def boxes_lengths_def)
  next
    fix x assume "x \<in> set (sorted_by_length b)"
    then obtain k' where x: "x = (k', length (lookup b k'))" and k': "k' \<in> fst ` set b"
      and u': "1 < length (lookup b k')"
      by (auto simp: sorted_by_length_def boxes_lengths_def)
    from least[OF k' u'] have "k < k' \<or> k = k'" by auto
    then show "(k, length (lookup b k)) \<le> x"
      unfolding x by (auto simp: less_eq_prod_def)
  qed
  then show ?thesis by (simp add: chosen_box_def)
qed

lemma A1_least: "list_all (\<lambda>k. ''A1'' \<le> k) boxes"
  by code_simp

subsection \<open>The board of the empty grid\<close>

lemma dots_lookup:
  "box \<in> set boxes \<Longrightarrow> lookup (grid2values (replicate 81 CHR ''.'')) box = ''123456789''"
  by (simp add: lookup_uniform)

lemma dots_reduce_pass:
  "reduce_pass (grid2values (replicate 81 CHR ''.'')) = grid2values (replicate 81 CHR ''.'')"
proof -
  let ?b = "grid2values (replicate 81 CHR ''.'')"
  have keys: "board_keys ?b" by (rule board_keys_uniform)
  have e: "eliminate ?b = ?b"
  proof (rule eliminate_same, rule eliminate_box_same)
    fix box p assume "box \<in> fst ` set ?b" and "length (lookup ?b box) = 1"
    then show "replace (lookup ?b p) (lookup ?b box) = lookup ?b p"
      using keys by (simp add: board_keys_mem dots_lookup)
  qed
  have o: "only_choice ?b = ?b"
  proof (rule only_choice_same, rule only_choice_value_same)
    fix unit v
    assume u: "unit \<in> set unitlist" and v: "v \<in> set ''123456789''"
      and one: "length (filter (\<lambda>box. sublist [v] (lookup ?b box)) unit) = 1"
    have "filter (\<lambda>box. sublist [v] (lookup ?b box)) unit = unit"
      unfolding filter_id_conv sublist_single
    proof
      fix box assume "box \<in> set unit"
      then have "lookup ?b box = ''123456789''" using u by (simp add: dots_lookup unit_boxes)
      with v show "v \<in> set (lookup ?b box)" by (simp only:)
    qed
    with one unit_length[OF u] have False by simp
    then show "lookup ?b (filter (\<lambda>box. sublist [v] (lookup ?b box)) unit ! 0) = [v]" ..
  qed
  have "doubles ?b = []"
    using keys by (auto simp: doubles_def filter_empty_conv board_keys_def dots_lookup)
  then have n: "naked_twins ?b = ?b" by (rule naked_twins_no_doubles)
  show ?thesis by (simp add: reduce_pass_def e o n)
qed

lemma dots_nonempty: "[] \<notin> set (map snd (grid2values (replicate 81 CHR ''.'')))"
  by (auto simp: grid2values_replicate)

lemma dots_reduce_puzzle:
  "reduce_puzzle (grid2values (replicate 81 CHR ''.'')) = Some (grid2values (replicate 81 CHR ''.''))"
proof -
  have "reduce_loop (grid2values (replicate 81 CHR ''.'')) = grid2values (replicate 81 CHR ''.'')"
    using reduce_loop_stalled[of "grid2values (replicate 81 CHR ''.'')"]
    by (simp add: dots_reduce_pass)
  then show ?thesis using dots_nonempty by (simp add: reduce_puzzle_def)
qed

lemma A1_box: "''A1'' \<in> set boxes"
  using A2_peer_A1 by simp

lemma dots_chosen_box: "chosen_box (grid2values (replicate 81 CHR ''.'')) = Some ''A1''"
proof (rule chosen_box_least)
  let ?b = "grid2values (replicate 81 CHR ''.'')"
  show "''A1'' \<in> fst ` set ?b" using A1_box board_keys_uniform by (simp add: board_keys_mem)
  show "1 < length (lookup ?b ''A1'')" using A1_box by (simp add: dots_lookup)
  fix k' assume "k' \<in> fst ` set ?b"
  then have "k' \<in> set boxes" using board_keys_uniform by (simp add: board_keys_mem)
  then show "''A1'' \<le> k'" using A1_least by (simp add: list_all_iff)
qed

subsection \<open>Termination\<close>

lemma branch_decreases:
  assumes "reduce_puzzle b = Some r" and "chosen_box r = Some cb"
  shows "total_len (AList.update cb [v] r) < total_len b"
proof -
  from assms(1) have le: "total_len r \<le> total_len b"
    by (intro shrinks_total_len reduce_puzzle_shrinks)
  from chosen_box_unsolved[OF assms(2)] total_len_update[of cb r "[v]"]
  have "total_len (AList.update cb [v] r) < total_len r" by simp
  with le show ?thesis by simp
qed

lemma reduce_loop_total: "reduce_loop_dom b"
proof -
  have "All reduce_loop_dom"
    by (relation "measure total_len") (auto intro: reduce_pass_progress)
  then show ?thesis by simp
qed

lemma search_total: "search_dom b"
proof -
  have "All search_dom"
    by (relation "measure total_len") (auto intro: branch_decreases)
  then show ?thesis by simp
qed

text \<open>
  C6. \<open>search\<close> terminates on every board, well-formed or not. The loop of
  \<open>reduce_puzzle\<close> reaches a stalled pass: it runs \<open>reduce_passes values\<close> passes, at
  least one and at most \<open>total_len values + 1\<close> (the total number of candidates on the
  board, plus one), its result is that many passes applied to the input, and the last of
  them leaves the count of solved cells unchanged. The recursion of \<open>search\<close> bottoms out:
  every board it calls itself on has fewer candidates in total than the board it was
  called on, and both the loop and the recursion are well-founded on every input
  (\<open>reduce_loop_dom\<close> and \<open>search_dom\<close> are the accessible parts of their call relations).
\<close>

theorem search_terminates:
  "reduce_loop_dom values \<and> search_dom values \<and>
   1 \<le> reduce_passes values \<and> reduce_passes values \<le> total_len values + 1 \<and>
   reduce_loop values = (reduce_pass ^^ reduce_passes values) values \<and>
   solved_values ((reduce_pass ^^ (reduce_passes values - 1)) values) =
     solved_values (reduce_loop values) \<and>
   (\<forall>r cb v. reduce_puzzle values = Some r \<longrightarrow> chosen_box r = Some cb \<longrightarrow>
      total_len (AList.update cb [v] r) < total_len values)"
  using reduce_loop_funpow[of "values"] reduce_loop_total[of "values"] search_total[of "values"]
    branch_decreases[of "values"]
  by simp

theorem search_terminates_witness:
  "reduce_puzzle (grid2values (replicate 81 CHR ''.'')) = Some (grid2values (replicate 81 CHR ''.'')) \<and>
   chosen_box (grid2values (replicate 81 CHR ''.'')) = Some ''A1'' \<and>
   total_len (AList.update ''A1'' ''1'' (grid2values (replicate 81 CHR ''.'')))
     < total_len (grid2values (replicate 81 CHR ''.'')) \<and>
   search_dom (grid2values (replicate 81 CHR ''.'')) \<and>
   reduce_passes (grid2values (replicate 81 CHR ''.'')) = 1"
proof -
  have one: "reduce_passes (grid2values (replicate 81 CHR ''.'')) = 1"
    using reduce_passes_stalled[of "grid2values (replicate 81 CHR ''.'')"]
    by (simp add: dots_reduce_pass)
  show ?thesis
    using search_terminates[of "grid2values (replicate 81 CHR ''.'')"]
      dots_reduce_puzzle dots_chosen_box one
    by simp
qed

subsection \<open>Empty cells and the passes of the loop\<close>

lemma funpow_reduce_pass_shrinks: "shrinks ((reduce_pass ^^ k) b) b"
proof (induction k)
  case 0
  show ?case by (simp add: shrinks_refl)
next
  case (Suc k)
  have "shrinks (reduce_pass ((reduce_pass ^^ k) b)) ((reduce_pass ^^ k) b)"
    by (rule reduce_pass_shrinks)
  then show ?case using Suc by (auto intro: shrinks_trans)
qed

lemma reduce_pass_shrinks_stages:
  assumes "s \<in> set (pass_stages b)"
  shows "shrinks (reduce_pass b) s"
proof -
  have n: "shrinks (reduce_pass b) (only_choice (eliminate b))"
    unfolding reduce_pass_def by (rule naked_twins_shrinks)
  have o: "shrinks (reduce_pass b) (eliminate b)"
    using n only_choice_shrinks by (rule shrinks_trans)
  have e: "shrinks (reduce_pass b) b"
    by (rule reduce_pass_shrinks)
  from assms show ?thesis
    using n o e by (auto simp: pass_stages_def shrinks_refl)
qed

lemma reduce_loop_shrinks_stages:
  assumes i: "i < reduce_passes b" and s: "s \<in> set (pass_stages ((reduce_pass ^^ i) b))"
  shows "shrinks (reduce_loop b) s"
proof -
  let ?n = "reduce_passes b"
  have "?n = (?n - Suc i) + Suc i" using i by simp
  then have "(reduce_pass ^^ ?n) b = (reduce_pass ^^ (?n - Suc i)) ((reduce_pass ^^ Suc i) b)"
    by (metis funpow_add o_apply)
  then have "shrinks (reduce_loop b) ((reduce_pass ^^ Suc i) b)"
    using reduce_loop_funpow[of b] funpow_reduce_pass_shrinks[of "?n - Suc i" "(reduce_pass ^^ Suc i) b"]
    by simp
  moreover have "shrinks ((reduce_pass ^^ Suc i) b) s"
    using reduce_pass_shrinks_stages[OF s] by simp
  ultimately show ?thesis by (rule shrinks_trans)
qed

lemma reduce_passes_progress:
  "i < reduce_passes b - 1 \<Longrightarrow>
   solved_values ((reduce_pass ^^ i) b) \<noteq> solved_values ((reduce_pass ^^ Suc i) b)"
proof (induction b arbitrary: i rule: reduce_loop.induct)
  case (1 b)
  show ?case
  proof (cases "solved_values b = solved_values (reduce_pass b)")
    case True
    then have "reduce_passes b = 1" by (rule reduce_passes_stalled)
    with "1.prems" show ?thesis by simp
  next
    case False
    have n: "reduce_passes b = Suc (reduce_passes (reduce_pass b))"
      using False by (simp add: reduce_passes_continue)
    show ?thesis
    proof (cases i)
      case 0
      then show ?thesis using False by simp
    next
      case (Suc j)
      with "1.prems" n have "j < reduce_passes (reduce_pass b) - 1" by simp
      with False have
        "solved_values ((reduce_pass ^^ j) (reduce_pass b)) \<noteq>
         solved_values ((reduce_pass ^^ Suc j) (reduce_pass b))"
        by (rule "1.IH")
      then show ?thesis unfolding Suc by (simp add: funpow_swap1)
    qed
  qed
qed

lemma all_ones_empty:
  "[] \<in> set (map snd (reduce_pass (grid2values (replicate 81 CHR ''1''))))"
proof -
  let ?b = "grid2values (replicate 81 CHR ''1'')"
  from all_ones_pass obtain k where k: "k \<in> fst ` set ?b"
    and e: "lookup (reduce_pass ?b) k = []" by blast
  have "map fst (reduce_pass ?b) = map fst ?b"
    using reduce_pass_shrinks by (rule shrinks_keys)
  then have "fst ` set (reduce_pass ?b) = fst ` set ?b" by (metis image_set)
  with k have "lookup (reduce_pass ?b) k \<in> set (map snd (reduce_pass ?b))"
    by (intro lookup_in_values) simp
  with e show ?thesis by simp
qed

lemma all_ones_passes: "1 < reduce_passes (grid2values (replicate 81 CHR ''1''))"
proof -
  let ?b = "grid2values (replicate 81 CHR ''1'')"
  have "solved_values ?b \<noteq> solved_values (reduce_pass ?b)" using all_ones_count by simp
  then have "reduce_passes ?b = 1 + reduce_passes (reduce_pass ?b)"
    by (rule reduce_passes_continue)
  then show ?thesis using reduce_loop_funpow[of "reduce_pass ?b"] by simp
qed

text \<open>
  C4 (amended). The loop of \<open>reduce_puzzle\<close> runs whole passes (\<open>eliminate\<close>, then
  \<open>only_choice\<close>, then \<open>naked_twins\<close>) and stops after the first pass that leaves the count
  of solved cells unchanged: every earlier pass changes the count. It looks for an empty
  candidate string only once, after the loop has stopped, and not during the passes. The
  answer is then the failure value exactly when the board after the last pass has an
  empty cell; this is the case whenever any board that occurred during the passes (the
  input of a pass, or the board after any of its three strategies) had an empty cell,
  because candidate strings only shrink. Otherwise the answer is the board after the last
  pass.
\<close>

theorem reducer_reports_contradiction_after_stall:
  "reduce_loop values = (reduce_pass ^^ reduce_passes values) values \<and>
   (\<forall>i < reduce_passes values - 1.
      solved_values ((reduce_pass ^^ i) values) \<noteq> solved_values ((reduce_pass ^^ Suc i) values)) \<and>
   solved_values ((reduce_pass ^^ (reduce_passes values - 1)) values) =
     solved_values (reduce_loop values) \<and>
   (reduce_puzzle values = None \<longleftrightarrow> [] \<in> set (map snd (reduce_loop values))) \<and>
   (\<forall>i < reduce_passes values. \<forall>s \<in> set (pass_stages ((reduce_pass ^^ i) values)).
      [] \<in> set (map snd s) \<longrightarrow> reduce_puzzle values = None) \<and>
   (reduce_puzzle values \<noteq> None \<longrightarrow> reduce_puzzle values = Some (reduce_loop values))"
proof -
  have a: "reduce_loop values = (reduce_pass ^^ reduce_passes values) values"
    and c: "solved_values ((reduce_pass ^^ (reduce_passes values - 1)) values) =
            solved_values (reduce_loop values)"
    using reduce_loop_funpow[of "values"] by simp_all
  have d: "reduce_puzzle values = None \<longleftrightarrow> [] \<in> set (map snd (reduce_loop values))"
    by (simp add: reduce_puzzle_def Let_def)
  have e: "reduce_puzzle values = None"
    if "i < reduce_passes values" and "s \<in> set (pass_stages ((reduce_pass ^^ i) values))"
      and "[] \<in> set (map snd s)" for i s
    using shrinks_empty[OF reduce_loop_shrinks_stages[OF that(1,2)] that(3)] d by simp
  have f: "reduce_puzzle values \<noteq> None \<longrightarrow> reduce_puzzle values = Some (reduce_loop values)"
    by (simp add: reduce_puzzle_def Let_def)
  show ?thesis
    using a c d f reduce_passes_progress[of _ "values"] e by blast
qed

theorem reducer_reports_contradiction_after_stall_witness:
  "1 < reduce_passes (grid2values (replicate 81 CHR ''1'')) \<and>
   reduce_pass (grid2values (replicate 81 CHR ''1''))
     \<in> set (pass_stages (grid2values (replicate 81 CHR ''1''))) \<and>
   [] \<in> set (map snd (reduce_pass (grid2values (replicate 81 CHR ''1'')))) \<and>
   solved_values (grid2values (replicate 81 CHR ''1'')) \<noteq>
     solved_values (reduce_pass (grid2values (replicate 81 CHR ''1''))) \<and>
   reduce_puzzle (grid2values (replicate 81 CHR ''1'')) = None"
proof -
  let ?b = "grid2values (replicate 81 CHR ''1'')"
  note t = reducer_reports_contradiction_after_stall[of ?b]
  have n: "1 < reduce_passes ?b" by (rule all_ones_passes)
  have s: "reduce_pass ?b \<in> set (pass_stages ((reduce_pass ^^ 0) ?b))"
    by (simp add: pass_stages_def)
  from n have z: "0 < reduce_passes ?b" and z': "0 < reduce_passes ?b - 1" by simp_all
  from t z s all_ones_empty have "reduce_puzzle ?b = None" by blast
  moreover from t z' have "solved_values ((reduce_pass ^^ 0) ?b) \<noteq>
      solved_values ((reduce_pass ^^ Suc 0) ?b)" by blast
  ultimately show ?thesis using n s all_ones_empty by simp
qed

text \<open>
  The claim as it is written fails in its second half: on the board of the grid of 81
  ones the first pass leaves cells with no candidate, and the loop does not stop there:
  it runs at least one more pass before the failure value is returned.
\<close>

theorem contradiction_not_reported_immediately:
  "[] \<in> set (map snd (reduce_pass (grid2values (replicate 81 CHR ''1'')))) \<and>
   1 < reduce_passes (grid2values (replicate 81 CHR ''1''))"
  using all_ones_empty all_ones_passes by simp

section \<open>Soundness of the search\<close>

text \<open>
  \<open>digits_only\<close>: every candidate string of the board is made of the digits 1 to 9.
  Together with \<open>board_keys\<close> this is the well-formed board the solver assumes.
\<close>

definition digits_only :: "board \<Rightarrow> bool" where
  "digits_only values = list_all (\<lambda>box. set (lookup values box) \<subseteq> set ''123456789'') boxes"

lemma digits_onlyD:
  "digits_only b \<Longrightarrow> box \<in> set boxes \<Longrightarrow> set (lookup b box) \<subseteq> set ''123456789''"
  unfolding digits_only_def list_all_iff by blast

lemma shrinks_digits_only:
  assumes "shrinks a b" and "digits_only b"
  shows "digits_only a"
  unfolding digits_only_def list_all_iff
proof
  fix box assume box: "box \<in> set boxes"
  have "set (lookup a box) \<subseteq> set (lookup b box)"
    using shrinks_lookup[OF assms(1), of box] by (auto dest: list_emb_set)
  with digits_onlyD[OF assms(2) box] show "set (lookup a box) \<subseteq> set ''123456789''"
    by (rule subset_trans[rotated])
qed

lemma update_digits_only:
  assumes "digits_only b" and "cb \<in> set boxes" and "v \<in> set (lookup b cb)"
  shows "digits_only (AList.update cb [v] b)"
  unfolding digits_only_def list_all_iff
proof
  fix box assume box: "box \<in> set boxes"
  show "set (lookup (AList.update cb [v] b) box) \<subseteq> set ''123456789''"
  proof (cases "box = cb")
    case True
    have "v \<in> set ''123456789''" using digits_onlyD[OF assms(1,2)] assms(3) by blast
    then show ?thesis using True by (simp only: lookup_update) simp
  next
    case False
    then show ?thesis using digits_onlyD[OF assms(1) box] by (simp only: lookup_update) simp
  qed
qed

lemma update_board_keys:
  "board_keys b \<Longrightarrow> cb \<in> fst ` set b \<Longrightarrow> board_keys (AList.update cb v b)"
  by (simp add: board_keys_def update_keys)

lemma grid2values_digits_only:
  assumes "set grid \<subseteq> insert CHR ''.'' (set ''123456789'')"
  shows "digits_only (grid2values grid)"
  unfolding digits_only_def list_all_iff
proof
  fix box
  show "set (lookup (grid2values grid) box) \<subseteq> set ''123456789''"
  proof (cases "map_of (grid2values grid) box")
    case None
    then show ?thesis by (simp add: lookup_def)
  next
    case (Some v)
    then have "(box, v) \<in> set (grid2values grid)" by (rule map_of_SomeD)
    then obtain c where c: "c \<in> set grid"
      and v: "v = (if c = CHR ''.'' then ''123456789'' else [c])"
      by (auto simp: grid2values_def dest: set_zip_leftD)
    have "set v \<subseteq> set ''123456789''"
    proof (cases "c = CHR ''.''")
      case True
      then show ?thesis using v by (simp only: if_True) simp
    next
      case False
      from c assms have "c \<in> insert CHR ''.'' (set ''123456789'')" by (rule subsetD[rotated])
      then have "c = CHR ''.'' \<or> c \<in> set ''123456789''" by (simp only: insert_iff)
      with False have cd: "c \<in> set ''123456789''" by blast
      have "v = [c]" using v False by simp
      then show ?thesis using cd by (simp only: list.set) simp
    qed
    then show ?thesis using Some by (simp add: lookup_def)
  qed
qed

subsection \<open>A solved board that a pass leaves alone is Solved\<close>

lemma peers_differ_units_distinct:
  assumes "peers_differ b"
  shows "list_all (\<lambda>u. distinct (map (lookup b) u)) unitlist"
  unfolding list_all_iff
proof
  fix u assume u: "u \<in> set unitlist"
  have "inj_on (lookup b) (set u)"
  proof (rule inj_onI)
    fix x y assume x: "x \<in> set u" and y: "y \<in> set u" and eq: "lookup b x = lookup b y"
    show "x = y"
    proof (rule ccontr)
      assume ne: "x \<noteq> y"
      with u x y have "x \<in> set (peers y)" by (auto simp: peers_iff)
      moreover have "y \<in> set boxes" using u y by (rule unit_boxes)
      ultimately have "lookup b x \<noteq> lookup b y"
        using assms unfolding peers_differ_iff by blast
      with eq show False by simp
    qed
  qed
  then show "distinct (map (lookup b) u)" using unit_distinct[OF u] by (simp add: distinct_map)
qed

lemma SolvedI:
  assumes sol: "solved b" and dig: "digits_only b" and pd: "peers_differ b"
  shows "Solved b"
proof -
  have "unit_permutation b u" if u: "u \<in> set unitlist" for u
    unfolding unit_permutation_def
  proof (rule digits_permutation)
    have one: "length x = 1" if "x \<in> set (map (lookup b) u)" for x
      using that u sol by (auto dest: unit_boxes solved_lookup)
    have d: "distinct (map (lookup b) u)"
      using u peers_differ_units_distinct[OF pd] by (simp add: list_all_iff)
    from concat_singletons[OF one d] unit_length[OF u]
    show "distinct (concat (map (lookup b) u))"
      and "length (concat (map (lookup b) u)) = 9" by simp_all
    show "set (concat (map (lookup b) u)) \<subseteq> set ''123456789''"
    proof
      fix c assume "c \<in> set (concat (map (lookup b) u))"
      then obtain box where box: "box \<in> set u" and c: "c \<in> set (lookup b box)" by auto
      from digits_onlyD[OF dig unit_boxes[OF u box]] c
      show "c \<in> set ''123456789''" by blast
    qed
  qed
  then show ?thesis using sol by (simp add: Solved_def list_all_iff)
qed

lemma solved_values_full:
  assumes "solved_values b = length b" and "k \<in> fst ` set b"
  shows "length (lookup b k) = 1"
  using solved_values_less[OF assms(2)] assms(1) by fastforce

lemma reduce_loop_last:
  "reduce_loop b = reduce_pass ((reduce_pass ^^ (reduce_passes b - 1)) b)"
proof -
  from reduce_loop_funpow[of b] obtain n where n: "reduce_passes b = Suc n"
    by (cases "reduce_passes b") auto
  then show ?thesis using reduce_loop_funpow[of b] by simp
qed

lemma reduce_puzzle_solved_fixed:
  assumes keys: "board_keys b" and red: "reduce_puzzle b = Some r" and sol: "solved r"
  shows "eliminate r = r"
proof -
  let ?prev = "(reduce_pass ^^ (reduce_passes b - 1)) b"
  have r: "r = reduce_loop b" using red by (auto simp: reduce_puzzle_def Let_def split: if_splits)
  have rp: "r = reduce_pass ?prev" unfolding r by (rule reduce_loop_last)
  have sh: "shrinks r ?prev" unfolding rp by (rule reduce_pass_shrinks)
  have kp: "board_keys ?prev"
    using funpow_reduce_pass_shrinks keys by (rule shrinks_board_keys)
  have kr: "board_keys r" using sh kp by (rule shrinks_board_keys)
  have cnt: "solved_values ?prev = solved_values r"
    unfolding r using reduce_loop_funpow[of b] by simp
  have "solved_values r = length r"
  proof (rule solved_values_all)
    fix k assume "k \<in> fst ` set r"
    then have "k \<in> set boxes" using kr by (simp add: board_keys_mem)
    then show "length (lookup r k) = 1" using sol by (simp add: solved_lookup)
  qed
  with cnt shrinks_length[OF sh] have full: "solved_values ?prev = length ?prev" by simp
  have same: "lookup r k = lookup ?prev k" if k: "k \<in> fst ` set ?prev" for k
  proof -
    have "length (lookup ?prev k) = 1" using full k by (rule solved_values_full)
    moreover have "k \<in> set boxes" using kp k by (simp add: board_keys_mem)
    then have "length (lookup r k) = 1" using sol by (simp add: solved_lookup)
    ultimately show ?thesis
      using shrinks_lookup[OF sh, of k] by (simp add: subseq_same_length)
  qed
  have "distinct (map fst ?prev)" using kp by (simp add: board_keys_def)
  with sh have eq: "r = ?prev" by (rule shrinks_eqI) (rule same)
  have "shrinks (reduce_pass r) (eliminate r)"
    by (rule reduce_pass_shrinks_stages) (simp add: pass_stages_def)
  moreover have "reduce_pass r = r" using rp eq by simp
  ultimately have "shrinks r (eliminate r)" by simp
  with eliminate_shrinks show ?thesis by (rule shrinks_antisym)
qed

lemma first_attempt_Dict: "first_attempt attempts = Dict d \<Longrightarrow> Dict d \<in> set attempts"
proof (induction attempts)
  case Nil
  then show ?case by simp
next
  case (Cons a rest)
  then show ?case by (cases a) (auto split: if_splits)
qed

lemma search_sound_boards:
  "board_keys b \<Longrightarrow> digits_only b \<Longrightarrow> search b = Dict r \<Longrightarrow> Solved r \<and> board_keys r"
proof (induction b rule: search.induct)
  case (1 b)
  show ?case
  proof (cases "reduce_puzzle b")
    case None
    then have "search b = PyFalse" by (subst search.simps) simp
    with "1.prems"(3) show ?thesis by simp
  next
    case (Some x)
    have sh: "shrinks x b" using Some by (rule reduce_puzzle_shrinks)
    have kx: "board_keys x" using sh "1.prems"(1) by (rule shrinks_board_keys)
    have dx: "digits_only x" using sh "1.prems"(2) by (rule shrinks_digits_only)
    show ?thesis
    proof (cases "list_all (\<lambda>box. length (lookup x box) = 1) boxes")
      case True
      then have "search b = Dict x" using Some by (subst search.simps) simp
      with "1.prems"(3) have rx: "r = x" by simp
      have sol: "solved x" using True by (simp add: solved_def)
      have "eliminate x = x" using "1.prems"(1) Some sol by (rule reduce_puzzle_solved_fixed)
      then have "peers_differ x" using kx sol by (simp add: eliminate_solved_iff)
      with sol dx have "Solved x" by (rule SolvedI)
      then show ?thesis using kx rx by simp
    next
      case False
      show ?thesis
      proof (cases "chosen_box x")
        case None
        then have "search b = ValueError" using Some False by (subst search.simps) simp
        with "1.prems"(3) show ?thesis by simp
      next
        case (Some cb)
        have "search b =
              first_attempt (map (\<lambda>value. search (AList.update cb [value] x)) (lookup x cb))"
          using \<open>reduce_puzzle b = Some x\<close> False Some by (subst search.simps) simp
        with "1.prems"(3) have
          "first_attempt (map (\<lambda>value. search (AList.update cb [value] x)) (lookup x cb)) =
           Dict r" by simp
        then have
          "Dict r \<in> set (map (\<lambda>value. search (AList.update cb [value] x)) (lookup x cb))"
          by (rule first_attempt_Dict)
        then obtain v where v: "v \<in> set (lookup x cb)"
          and s: "search (AList.update cb [v] x) = Dict r" by auto
        have cbk: "cb \<in> fst ` set x" using chosen_box_unsolved[OF Some] by simp
        then have cbb: "cb \<in> set boxes" using kx by (simp add: board_keys_mem)
        have k': "board_keys (AList.update cb [v] x)" using kx cbk by (rule update_board_keys)
        have d': "digits_only (AList.update cb [v] x)" using dx cbb v by (rule update_digits_only)
        from "1.IH"[OF \<open>reduce_puzzle b = Some x\<close> False Some v k' d' s] show ?thesis .
      qed
    qed
  qed
qed

lemma solved_grid_search:
  "search (grid2values solved_grid) = Dict (grid2values solved_grid)"
proof -
  let ?g = "grid2values solved_grid"
  have rp: "reduce_pass ?g = ?g" using solved_grid_board by (simp add: reduce_pass_solved)
  have "reduce_loop ?g = ?g" using reduce_loop_stalled[of ?g] by (simp add: rp)
  moreover have "[] \<notin> set (map snd ?g)"
    using grid2values_cells[of _ solved_grid] solved_grid_facts by fastforce
  ultimately have red: "reduce_puzzle ?g = Some ?g" by (simp add: reduce_puzzle_def)
  have "list_all (\<lambda>box. length (lookup ?g box) = 1) boxes"
    using solved_grid_board by (simp add: solved_def)
  then show ?thesis using red by (subst search.simps) simp
qed

lemma solved_grid_digits_only: "digits_only (grid2values solved_grid)"
proof (rule grid2values_digits_only)
  have "set solved_grid \<subseteq> set ''123456789''"
    using solved_grid_facts unfolding list_all_iff by blast
  then show "set solved_grid \<subseteq> insert CHR ''.'' (set ''123456789'')"
    by (rule subset_insertI2)
qed

text \<open>
  C1. If \<open>search\<close> (and so \<open>solve\<close>, which is \<open>search\<close> on the board of the grid) returns
  a board for a well-formed input board (the 81 boxes, candidate strings made of the
  digits 1 to 9), then the returned board is Solved: each of its 81 cells holds exactly one
  candidate, and in each of the 29 units of \<open>unitlist\<close> (9 rows, 9 columns, 9 squares and
  the two main diagonals) the nine digits are a permutation of \<open>'123456789'\<close>.
\<close>

theorem search_returns_solved_board:
  assumes "board_keys values" and "digits_only values" and "search values = Dict r"
  shows "list_all (\<lambda>box. length (lookup r box) = 1) boxes \<and>
         list_all (\<lambda>u. mset (concat (map (lookup r) u)) = mset ''123456789'') unitlist \<and>
         length unitlist = 29 \<and> length boxes = 81"
proof -
  have "Solved r" using search_sound_boards[OF assms] by simp
  then have "list_all (\<lambda>box. length (lookup r box) = 1) boxes"
    and "list_all (\<lambda>u. mset (concat (map (lookup r) u)) = mset ''123456789'') unitlist"
    by (simp_all add: Solved_def solved_def unit_permutation_def[abs_def])
  moreover have "length unitlist = 29"
    by (simp add: unitlist_def row_units_def column_units_def square_units_def
        diagonal_units_def rows_def cols_def)
  ultimately show ?thesis using boxes_facts by simp
qed

theorem search_returns_solved_board_witness:
  "board_keys (grid2values solved_grid) \<and> digits_only (grid2values solved_grid) \<and>
   solve solved_grid = Dict (grid2values solved_grid) \<and>
   list_all (\<lambda>box. length (lookup (grid2values solved_grid) box) = 1) boxes \<and>
   list_all (\<lambda>u. mset (concat (map (lookup (grid2values solved_grid)) u)) = mset ''123456789'')
     unitlist"
  using search_returns_solved_board[of "grid2values solved_grid" "grid2values solved_grid"]
    solved_grid_board solved_grid_digits_only solved_grid_search
  by (simp add: solve_def)

section \<open>The first pass on the board of a grid with a few givens\<close>

subsection \<open>Elimination in closed form\<close>

text \<open>
  \<open>eliminated b k\<close> is the candidate string of \<open>k\<close> without the digits of the solved peers
  of \<open>k\<close>. When no unsolved cell is left with fewer than two candidates by this, no cell
  becomes solved during the sweep of \<open>eliminate\<close>, and the sweep computes exactly this.
\<close>

definition eliminated :: "board \<Rightarrow> box \<Rightarrow> string" where
  "eliminated b k = filter (\<lambda>c. list_all (\<lambda>s. lookup b s \<noteq> [c]) (peers k)) (lookup b k)"

lemma length_filter_mono:
  "(\<And>x. x \<in> set xs \<Longrightarrow> P x \<Longrightarrow> Q x) \<Longrightarrow> length (filter P xs) \<le> length (filter Q xs)"
  by (induction xs) auto

lemma eliminate_fold_lookup:
  assumes given: "\<And>x. x \<in> set xs \<Longrightarrow> length (lookup b x) = 1 \<Longrightarrow> eliminated b x = lookup b x"
    and other: "\<And>x. x \<in> set xs \<Longrightarrow> length (lookup b x) \<noteq> 1 \<Longrightarrow> 2 \<le> length (eliminated b x)"
  shows "lookup (fold (\<lambda>box vs. eliminate_box vs box) xs b) k =
         filter (\<lambda>c. \<forall>s \<in> set (peers k) \<inter> set xs. lookup b s \<noteq> [c]) (lookup b k)"
  using assms
proof (induction xs arbitrary: k rule: rev_induct)
  case Nil
  show ?case by simp
next
  case (snoc x xs)
  let ?v = "fold (\<lambda>box vs. eliminate_box vs box) xs b"
  have IH: "lookup ?v k = filter (\<lambda>c. \<forall>s \<in> set (peers k) \<inter> set xs. lookup b s \<noteq> [c]) (lookup b k)"
    for k
    using snoc.IH snoc.prems by simp
  have le: "length (eliminated b x) \<le> length (lookup ?v x)"
    unfolding IH eliminated_def list_all_iff by (rule length_filter_mono) blast
  have step: "lookup (fold (\<lambda>box vs. eliminate_box vs box) (xs @ [x]) b) k =
      (if length (lookup ?v x) = 1 \<and> k \<in> set (peers x)
       then replace (lookup ?v k) (lookup ?v x) else lookup ?v k)"
    by (simp add: lookup_eliminate_box)
  show ?case
  proof (cases "length (lookup b x) = 1")
    case True
    then obtain c where c: "lookup b x = [c]" by (cases "lookup b x") auto
    have "eliminated b x = [c]" using snoc.prems(1)[of x] True c by simp
    with le have "1 \<le> length (lookup ?v x)" by simp
    moreover have "lookup ?v x = filter (\<lambda>c. \<forall>s \<in> set (peers x) \<inter> set xs. lookup b s \<noteq> [c]) [c]"
      using IH[of x] c by simp
    ultimately have vx: "lookup ?v x = [c]" by (simp split: if_splits)
    show ?thesis
    proof (cases "k \<in> set (peers x)")
      case True
      then have xk: "x \<in> set (peers k)" by (rule peers_sym)
      have "lookup (fold (\<lambda>box vs. eliminate_box vs box) (xs @ [x]) b) k =
            filter (\<lambda>c'. c' \<noteq> c) (lookup ?v k)"
        unfolding step using True vx by (simp add: replace_single)
      also have "\<dots> = filter (\<lambda>c'. (\<forall>s \<in> set (peers k) \<inter> set xs. lookup b s \<noteq> [c']) \<and> c' \<noteq> c)
                         (lookup b k)"
        unfolding IH by (simp add: conj_commute)
      also have "\<dots> = filter (\<lambda>c'. \<forall>s \<in> set (peers k) \<inter> set (xs @ [x]). lookup b s \<noteq> [c'])
                         (lookup b k)"
        using xk c by (intro filter_cong refl) auto
      finally show ?thesis .
    next
      case False
      then have "x \<notin> set (peers k)" using peers_sym by blast
      then have "set (peers k) \<inter> set (xs @ [x]) = set (peers k) \<inter> set xs" by auto
      then show ?thesis unfolding step using False IH by simp
    qed
  next
    case False
    then have "2 \<le> length (eliminated b x)" using snoc.prems(2)[of x] by simp
    with le have "length (lookup ?v x) \<noteq> 1" by simp
    then have "lookup (fold (\<lambda>box vs. eliminate_box vs box) (xs @ [x]) b) k = lookup ?v k"
      unfolding step by simp
    also have "\<dots> = filter (\<lambda>c. \<forall>s \<in> set (peers k) \<inter> set (xs @ [x]). lookup b s \<noteq> [c])
                       (lookup b k)"
      unfolding IH using False by (intro filter_cong refl) auto
    finally show ?thesis .
  qed
qed

lemma eliminate_closed_form:
  assumes keys: "board_keys b"
    and given: "\<And>x. x \<in> set boxes \<Longrightarrow> length (lookup b x) = 1 \<Longrightarrow> eliminated b x = lookup b x"
    and other: "\<And>x. x \<in> set boxes \<Longrightarrow> length (lookup b x) \<noteq> 1 \<Longrightarrow> 2 \<le> length (eliminated b x)"
  shows "lookup (eliminate b) k = eliminated b k"
proof -
  have ks: "set (map fst b) = set boxes" using keys by (simp add: board_keys_def)
  have "lookup (eliminate b) k =
        filter (\<lambda>c. \<forall>s \<in> set (peers k) \<inter> set (map fst b). lookup b s \<noteq> [c]) (lookup b k)"
    unfolding eliminate_def
  proof (rule eliminate_fold_lookup)
    fix x assume "x \<in> set (map fst b)"
    then have x: "x \<in> set boxes" by (simp only: ks)
    show "length (lookup b x) = 1 \<Longrightarrow> eliminated b x = lookup b x" using x by (rule given)
    show "length (lookup b x) \<noteq> 1 \<Longrightarrow> 2 \<le> length (eliminated b x)" using x by (rule other)
  qed
  also have "\<dots> = eliminated b k"
    unfolding eliminated_def list_all_iff ks
    by (intro filter_cong refl) (auto dest: peers_boxes)
  finally show ?thesis .
qed

subsection \<open>Only choice finds nothing to do\<close>

text \<open>
  \<open>only_choice_idle f\<close>: on the board with candidate strings \<open>f\<close>, in every unit every
  digit either occurs in a number of cells other than one or is the value of a solved
  cell of the unit. Then \<open>only_choice\<close> assigns nothing new.
\<close>

definition only_choice_idle :: "(box \<Rightarrow> string) \<Rightarrow> bool" where
  "only_choice_idle f =
     list_all (\<lambda>cs. list_all (\<lambda>d. length (filter (\<lambda>s. d \<in> set s) cs) \<noteq> 1 \<or> [d] \<in> set cs)
                       ''123456789'')
       (map (map f) unitlist)"

lemma only_choice_idle_same:
  assumes agree: "\<And>k. k \<in> set boxes \<Longrightarrow> lookup r k = f k" and idle: "only_choice_idle f"
  shows "only_choice r = r"
proof (rule only_choice_same, rule only_choice_value_same)
  fix unit v
  assume u: "unit \<in> set unitlist" and v: "v \<in> set ''123456789''"
  let ?bs = "filter (\<lambda>box. sublist [v] (lookup r box)) unit"
  assume one: "length ?bs = 1"
  have bs: "?bs = filter (\<lambda>box. v \<in> set (f box)) unit"
    using u by (intro filter_cong refl) (simp add: sublist_single agree unit_boxes)
  have "filter (\<lambda>s. v \<in> set s) (map f unit) = map f (filter (\<lambda>box. v \<in> set (f box)) unit)"
    by (simp add: filter_map comp_def)
  then have "length (filter (\<lambda>s. v \<in> set s) (map f unit)) = 1" using one bs by simp
  moreover have "length (filter (\<lambda>s. v \<in> set s) (map f unit)) \<noteq> 1 \<or> [v] \<in> set (map f unit)"
    using idle u v unfolding only_choice_idle_def list_all_iff by fastforce
  ultimately have "[v] \<in> set (map f unit)" by blast
  then obtain box where box: "box \<in> set unit" and fb: "f box = [v]" by auto
  then have "box \<in> set ?bs" unfolding bs by simp
  moreover from one obtain y where y: "?bs = [y]" by (cases ?bs) auto
  ultimately have "?bs ! 0 = box" by simp
  then show "lookup r (?bs ! 0) = [v]" using fb box u by (simp add: agree unit_boxes)
qed

end
